theory Spec2Isabelle
  imports Complex_Main "HOL-Library.Sublist"
begin

section \<open>The model of the natural language processor\<close>

subsection \<open>Data model\<close>

text \<open>
  The classes of \<^verbatim>\<open>mindmeld.core\<close> that the processors of
  \<^verbatim>\<open>mindmeld/components/nlp.py\<close> read and write: a \<^verbatim>\<open>Span\<close> with its
  \<^verbatim>\<open>start\<close> and \<^verbatim>\<open>end\<close> offsets, an \<^verbatim>\<open>Entity\<close> with its
  \<^verbatim>\<open>type\<close>, \<^verbatim>\<open>text\<close>, \<^verbatim>\<open>role\<close> and \<^verbatim>\<open>value\<close>, and a
  \<^verbatim>\<open>QueryEntity\<close> holding one of each. Offsets are Python integers.
\<close>

record span =
  span_start :: int
  span_end :: int

record entity =
  etype :: string
  etext :: string
  role :: "string option"
  resolved :: "string option"

record query_entity =
  entity :: entity
  span :: span

text \<open>The exceptions the modelled functions raise.\<close>

datatype py_error =
  IndexError
  | KeyError
  | ValueError
  | TypeError
  | AttributeError
  | RecursionError
  | NotImplementedError
  | ProcessorError
  | AllowedNlpClassesKeyError string

subsection \<open>N-best entity alignment\<close>

text \<open>
  The test of the innermost loop of \<^verbatim>\<open>IntentProcessor._align_entities\<close>: both spans
  are widened by one when their start and end coincide, then the overlap
  \<^verbatim>\<open>min(n_end, ref_end) - max(ref_start, n_start)\<close> must be positive and the entity types
  must be equal.
\<close>

definition aligns :: "query_entity \<Rightarrow> query_entity \<Rightarrow> bool" where
  "aligns e ref_entity =
     (let n_start = span_start (span e);
          n_end = (if span_start (span e) = span_end (span e)
                   then span_end (span e) + 1 else span_end (span e));
          ref_start = span_start (span ref_entity);
          ref_end = (if span_end (span ref_entity) = span_start (span ref_entity)
                     then span_end (span ref_entity) + 1 else span_end (span ref_entity))
      in min n_end ref_end - max ref_start n_start > 0
         \<and> etype (entity ref_entity) = etype (entity e))"

text \<open>
  The lists hold references to \<^verbatim>\<open>QueryEntity\<close> objects, of any type \<open>'x\<close>; \<open>deref\<close>
  reads the object a reference points to (the identity, when the lists hold the entities
  themselves).

  \<^verbatim>\<open>for j, ref_entity in enumerate(entities[0][index_to_align:])\<close>: the offset
  \<^verbatim>\<open>j\<close> in the slice at which the loop breaks, or \<open>None\<close> when it runs to its end.
\<close>

fun scan_refs :: "('x \<Rightarrow> query_entity) \<Rightarrow> 'x \<Rightarrow> 'x list \<Rightarrow> nat option" where
  "scan_refs deref e [] = None"
| "scan_refs deref e (ref_entity # rs) =
     (if aligns (deref e) (deref ref_entity) then Some 0
      else (case scan_refs deref e rs of None \<Rightarrow> None | Some j \<Rightarrow> Some (Suc j)))"

text \<open>
  The body of \<^verbatim>\<open>for entity in entities_n\<close>, on the loop state
  \<^verbatim>\<open>(index_to_align, aligned_entities)\<close>.
\<close>

fun align_entity ::
  "('x \<Rightarrow> query_entity) \<Rightarrow> 'x list \<Rightarrow> nat \<times> 'x list list \<Rightarrow> 'x
   \<Rightarrow> nat \<times> 'x list list" where
  "align_entity deref refs (index_to_align, aligned_entities) e =
     (case scan_refs deref e (drop index_to_align refs) of
        None \<Rightarrow> (index_to_align, aligned_entities)
      | Some j \<Rightarrow>
          (index_to_align + j,
           aligned_entities[index_to_align + j :=
             aligned_entities ! (index_to_align + j) @ [e]]))"

text \<open>One pass of \<^verbatim>\<open>for entities_n in entities[1:]\<close>: the pointer starts at 0.\<close>

definition align_transcript ::
  "('x \<Rightarrow> query_entity) \<Rightarrow> 'x list \<Rightarrow> 'x list list \<Rightarrow> 'x list \<Rightarrow> 'x list list" where
  "align_transcript deref refs aligned_entities entities_n =
     snd (fold (\<lambda>e st. align_entity deref refs st e) entities_n (0, aligned_entities))"

text \<open>
  \<^verbatim>\<open>_align_entities(self, entities)\<close>; the second argument is
  \<^verbatim>\<open>self.nbest_transcripts_enabled\<close>. \<^verbatim>\<open>entities[0]\<close> raises on an empty list.
\<close>

definition align_entities ::
  "('x \<Rightarrow> query_entity) \<Rightarrow> bool \<Rightarrow> 'x list list \<Rightarrow> py_error + 'x list list" where
  "align_entities deref nbest_transcripts_enabled entities =
     (case entities of
        [] \<Rightarrow> Inl IndexError
      | refs # rest \<Rightarrow>
          (let aligned_entities = map (\<lambda>e. [e]) refs in
           if length entities > 1 \<and> nbest_transcripts_enabled
           then Inr (fold (\<lambda>entities_n al. align_transcript deref refs al entities_n)
                       rest aligned_entities)
           else Inr aligned_entities))"

text \<open>
  The values \<^verbatim>\<open>index_to_align\<close> takes at the successive
  \<^verbatim>\<open>aligned_entities[index_to_align].append(entity)\<close> of one transcript, with the
  candidate appended there: the trace of the loop of \<open>align_entity\<close>.
\<close>

fun placements ::
  "('x \<Rightarrow> query_entity) \<Rightarrow> 'x list \<Rightarrow> nat \<Rightarrow> 'x list \<Rightarrow> (nat \<times> 'x) list" where
  "placements deref refs index_to_align [] = []"
| "placements deref refs index_to_align (e # es) =
     (case scan_refs deref e (drop index_to_align refs) of
        None \<Rightarrow> placements deref refs index_to_align es
      | Some j \<Rightarrow> (index_to_align + j, e) # placements deref refs (index_to_align + j) es)"

text \<open>Appending a candidate to the group at an index.\<close>

definition place :: "nat \<times> 'x \<Rightarrow> 'x list list \<Rightarrow> 'x list list" where
  "place p groups = groups[fst p := groups ! fst p @ [snd p]]"

text \<open>
  The invariant of the alignment loops: one group per reference entity, headed by it, and
  every later member of a group is a candidate of the set \<open>C\<close> that aligns with the
  group's reference entity.
\<close>

definition grouped ::
  "('x \<Rightarrow> query_entity) \<Rightarrow> 'x set \<Rightarrow> 'x list \<Rightarrow> 'x list list \<Rightarrow> bool" where
  "grouped deref C refs groups \<longleftrightarrow>
     length groups = length refs \<and>
     (\<forall>i<length refs. groups ! i \<noteq> [] \<and> hd (groups ! i) = refs ! i \<and>
        (\<forall>c\<in>set (tl (groups ! i)). c \<in> C \<and> aligns (deref c) (deref (refs ! i))))"

text \<open>
  A \<^verbatim>\<open>QueryEntity\<close> as the entity recognizer returns it: type, text and span, with
  role and value not yet filled in.
\<close>

definition recognized :: "string \<Rightarrow> string \<Rightarrow> int \<Rightarrow> int \<Rightarrow> query_entity" where
  "recognized ty txt s e =
     \<lparr>entity = \<lparr>etype = ty, etext = txt, role = None, resolved = None\<rparr>,
      span = \<lparr>span_start = s, span_end = e\<rparr>\<rparr>"

subsection \<open>Label selection at the domain and intent tiers\<close>

text \<open>
  The domain and intent classifiers are external: \<^verbatim>\<open>predict(query, dynamic_resource)\<close>
  returns a label, \<^verbatim>\<open>predict_proba(query, dynamic_resource)\<close> a list of
  (label, confidence) pairs in descending confidence. The model takes them as two
  functions and records every call made to them.
\<close>

record ('q, 'd) classifier =
  predict :: "'q \<Rightarrow> 'd \<Rightarrow> string"
  predict_proba :: "'q \<Rightarrow> 'd \<Rightarrow> (string \<times> real) list"

datatype classifier_call = Predict | PredictProba

text \<open>
  A dictionary whose values are never read (\<^verbatim>\<open>self.domains\<close>, \<^verbatim>\<open>self.intents\<close>,
  \<^verbatim>\<open>allowed_nlp_classes\<close>) is the list of its keys, in insertion order; \<open>None\<close> is
  Python's \<^verbatim>\<open>None\<close>. \<^verbatim>\<open>not allowed_nlp_classes\<close> holds of \<^verbatim>\<open>None\<close> and of the
  empty dictionary.
\<close>

fun falsy :: "string list option \<Rightarrow> bool" where
  "falsy None = True"
| "falsy (Some keys) = (keys = [])"

text \<open>
  \<^verbatim>\<open>for ordered_domain, _ in sorted_domains: if ordered_domain in
  allowed_nlp_classes.keys(): ...\<close>: the label at which the loop stops, if any.
\<close>

fun first_allowed :: "string list \<Rightarrow> (string \<times> real) list \<Rightarrow> string option" where
  "first_allowed allowed [] = None"
| "first_allowed allowed ((ordered_label, score) # sorted_labels) =
     (if ordered_label \<in> set allowed then Some ordered_label
      else first_allowed allowed sorted_labels)"

text \<open>
  \<^verbatim>\<open>NaturalLanguageProcessor._process_domain\<close>. The result is the returned pair
  \<^verbatim>\<open>(domain, domain_proba)\<close> or the exception raised, with the classifier calls made.
\<close>

definition process_domain ::
  "string list \<Rightarrow> ('q, 'd) classifier \<Rightarrow> 'q \<Rightarrow> string list option \<Rightarrow> 'd \<Rightarrow> bool
   \<Rightarrow> (py_error + string \<times> (string \<times> real) list option) \<times> classifier_call list" where
  "process_domain domains domain_classifier query allowed_nlp_classes dynamic_resource verbose =
     (if length domains > 1 then
        (if falsy allowed_nlp_classes then
           (if verbose then
              (let domain_proba = predict_proba domain_classifier query dynamic_resource in
               case domain_proba of
                 [] \<Rightarrow> (Inl IndexError, [PredictProba])
               | (domain, score) # _ \<Rightarrow> (Inr (domain, Some domain_proba), [PredictProba]))
            else
              (Inr (predict domain_classifier query dynamic_resource, None), [Predict]))
         else
           (let allowed = (case allowed_nlp_classes of Some keys \<Rightarrow> keys | None \<Rightarrow> []) in
            if length allowed = 1 then
              (let domain = hd allowed in
               (Inr (domain, if verbose then Some [(domain, 1)] else None), []))
            else
              (let sorted_domains = predict_proba domain_classifier query dynamic_resource;
                   domain_proba = (if verbose then Some sorted_domains else None) in
               case first_allowed allowed sorted_domains of
                 Some ordered_domain \<Rightarrow> (Inr (ordered_domain, domain_proba), [PredictProba])
               | None \<Rightarrow>
                   (Inl (AllowedNlpClassesKeyError
                          ''Could not find user inputted domain in NLP hierarchy''),
                    [PredictProba]))))
      else
        (case domains of
           [] \<Rightarrow> (Inl IndexError, [])
         | domain # _ \<Rightarrow> (Inr (domain, if verbose then Some [(domain, 1)] else None), [])))"

text \<open>
  The selection of the intent in \<^verbatim>\<open>DomainProcessor.process_query\<close>, from
  \<^verbatim>\<open>intent_proba = None\<close> to the end of the \<^verbatim>\<open>if len(self.intents) > 1\<close> statement:
  the pair \<^verbatim>\<open>(intent, intent_proba)\<close> it leaves, or the exception it raises. The loop
  over the ranked list leaves \<^verbatim>\<open>intent\<close> at \<^verbatim>\<open>None\<close> when no label is allowed, and
  \<^verbatim>\<open>if not intent\<close> holds of \<^verbatim>\<open>None\<close> and of the empty string.
\<close>

definition select_intent ::
  "string list \<Rightarrow> ('q, 'd) classifier \<Rightarrow> 'q \<Rightarrow> string list option \<Rightarrow> 'd \<Rightarrow> bool
   \<Rightarrow> (py_error + string \<times> (string \<times> real) list option) \<times> classifier_call list" where
  "select_intent intents intent_classifier top_query allowed_nlp_classes dynamic_resource verbose =
     (if length intents > 1 then
        (if falsy allowed_nlp_classes then
           (if verbose then
              (let intent_proba = predict_proba intent_classifier top_query dynamic_resource in
               case intent_proba of
                 [] \<Rightarrow> (Inl IndexError, [PredictProba])
               | (intent, score) # _ \<Rightarrow> (Inr (intent, Some intent_proba), [PredictProba]))
            else
              (Inr (predict intent_classifier top_query dynamic_resource, None), [Predict]))
         else
           (let allowed = (case allowed_nlp_classes of Some keys \<Rightarrow> keys | None \<Rightarrow> []) in
            if length allowed = 1 then
              (let intent = hd allowed in
               (Inr (intent, if verbose then Some [(intent, 1)] else None), []))
            else
              (let sorted_intents = predict_proba intent_classifier top_query dynamic_resource;
                   intent_proba = (if verbose then Some sorted_intents else None);
                   intent = first_allowed allowed sorted_intents in
               if intent = None \<or> intent = Some []
               then (Inl (AllowedNlpClassesKeyError
                           ''Could not find user inputted intent in NLP hierarchy''),
                     [PredictProba])
               else (Inr (case intent of Some ordered_intent \<Rightarrow> ordered_intent | None \<Rightarrow> [],
                          intent_proba),
                     [PredictProba]))))
      else
        (case intents of
           [] \<Rightarrow> (Inl IndexError, [])
         | intent # _ \<Rightarrow> (Inr (intent, if verbose then Some [(intent, 1)] else None), [])))"

text \<open>
  The reading of "the first label of the ranked list that belongs to the restriction set":
  the label at some position of the list, allowed, with no allowed label before it.
\<close>

definition first_ranked_in ::
  "string list \<Rightarrow> (string \<times> real) list \<Rightarrow> string \<Rightarrow> bool" where
  "first_ranked_in allowed ranked label \<longleftrightarrow>
     (\<exists>i<length ranked. fst (ranked ! i) = label \<and> label \<in> set allowed \<and>
        (\<forall>j<i. fst (ranked ! j) \<notin> set allowed))"

text \<open>
  Two classifiers for the examples: one ranks \<^verbatim>\<open>a\<close> before \<^verbatim>\<open>b\<close>, one knows the single
  label \<^verbatim>\<open>d\<close>.
\<close>

definition ranks_a_b :: "(unit, unit) classifier" where
  "ranks_a_b = \<lparr>predict = (\<lambda>_ _. ''a''),
                predict_proba = (\<lambda>_ _. [(''a'', 3 / 4), (''b'', 1 / 4)])\<rparr>"

definition knows_d :: "(unit, unit) classifier" where
  "knows_d = \<lparr>predict = (\<lambda>_ _. ''d''), predict_proba = (\<lambda>_ _. [(''d'', 1)])\<rparr>"

subsection \<open>Validation of the allowed intents\<close>

text \<open>
  \<^verbatim>\<open>str.split(sep)\<close> for a separator of one character: the pieces between the
  occurrences of the separator, empty pieces included.
\<close>

fun split_on :: "char \<Rightarrow> string \<Rightarrow> string list" where
  "split_on sep [] = [[]]"
| "split_on sep (c # cs) =
     (if c = sep then [] # split_on sep cs
      else (case split_on sep cs of
              piece # pieces \<Rightarrow> (c # piece) # pieces
            | [] \<Rightarrow> [[c]]))"

text \<open>
  The hierarchy \<^verbatim>\<open>self.domains\<close> maps a domain to the keys of
  \<^verbatim>\<open>self.domains[domain].intents\<close>. The dictionary \<^verbatim>\<open>nlp_components\<close> maps a domain
  to a dictionary whose values are all \<^verbatim>\<open>{}\<close>: to the set of its keys.
\<close>

type_synonym hierarchy = "string \<rightharpoonup> string list"

type_synonym nlp_classes = "string \<rightharpoonup> string set"

text \<open>
  The body of \<^verbatim>\<open>for allowed_intent in allowed_intents\<close> in
  \<^verbatim>\<open>NaturalLanguageProcessor.extract_allowed_intents\<close>. The tuple assignment
  \<^verbatim>\<open>domain, intent = allowed_intent.split(".")\<close> raises \<^verbatim>\<open>ValueError\<close> unless the
  split has exactly two pieces.
\<close>

definition extract_step :: "hierarchy \<Rightarrow> nlp_classes \<Rightarrow> string \<Rightarrow> py_error + nlp_classes" where
  "extract_step domains nlp_components allowed_intent =
     (case split_on (CHR ''.'') allowed_intent of
        [domain, intent] \<Rightarrow>
          (case domains domain of
             None \<Rightarrow>
               Inl (AllowedNlpClassesKeyError
                     (''Domain: '' @ domain @ '' is not in the NLP component hierarchy''))
           | Some intents \<Rightarrow>
               if intent \<noteq> ''*'' \<and> intent \<notin> set intents
               then Inl (AllowedNlpClassesKeyError
                          (''Intent: '' @ intent @ '' is not in the NLP component hierarchy''))
               else
                 (let current = (case nlp_components domain of None \<Rightarrow> {} | Some s \<Rightarrow> s) in
                  if intent = ''*''
                  then Inr (nlp_components(domain \<mapsto> fold insert intents current))
                  else Inr (nlp_components(domain \<mapsto> insert intent current))))
      | _ \<Rightarrow> Inl ValueError)"

fun extract_loop :: "hierarchy \<Rightarrow> nlp_classes \<Rightarrow> string list \<Rightarrow> py_error + nlp_classes" where
  "extract_loop domains nlp_components [] = Inr nlp_components"
| "extract_loop domains nlp_components (allowed_intent # allowed_intents) =
     (case extract_step domains nlp_components allowed_intent of
        Inl e \<Rightarrow> Inl e
      | Inr nlp_components' \<Rightarrow> extract_loop domains nlp_components' allowed_intents)"

definition extract_allowed_intents :: "hierarchy \<Rightarrow> string list \<Rightarrow> py_error + nlp_classes" where
  "extract_allowed_intents domains allowed_intents =
     extract_loop domains Map.empty allowed_intents"

text \<open>
  The words of the specification. A label path is a top label and a sublabel, neither
  with a dot, joined by a dot. A path is known when its top label is a domain of the tree
  and its sublabel is the wildcard or an intent of that domain. The mapping of a list of
  paths sends each referenced domain to the set of its referenced intents, the wildcard
  standing for all the intents of the domain.
\<close>

definition label_path :: "string \<times> string \<Rightarrow> string" where
  "label_path p = fst p @ ''.'' @ snd p"

definition dot_free :: "string \<times> string \<Rightarrow> bool" where
  "dot_free p \<longleftrightarrow> CHR ''.'' \<notin> set (fst p) \<and> CHR ''.'' \<notin> set (snd p)"

definition known :: "hierarchy \<Rightarrow> string \<times> string \<Rightarrow> bool" where
  "known domains p \<longleftrightarrow>
     (case domains (fst p) of
        None \<Rightarrow> False
      | Some intents \<Rightarrow> snd p = ''*'' \<or> snd p \<in> set intents)"

definition expand :: "hierarchy \<Rightarrow> string \<times> string \<Rightarrow> string set" where
  "expand domains p =
     (if snd p = ''*'' then (case domains (fst p) of None \<Rightarrow> {} | Some intents \<Rightarrow> set intents)
      else {snd p})"

definition referenced :: "hierarchy \<Rightarrow> (string \<times> string) list \<Rightarrow> nlp_classes" where
  "referenced domains paths =
     (\<lambda>domain. if domain \<in> fst ` set paths
        then Some (\<Union>p \<in> {p \<in> set paths. fst p = domain}. expand domains p)
        else None)"

definition offending :: "hierarchy \<Rightarrow> string \<times> string \<Rightarrow> py_error" where
  "offending domains p =
     (if domains (fst p) = None
      then AllowedNlpClassesKeyError
             (''Domain: '' @ fst p @ '' is not in the NLP component hierarchy'')
      else AllowedNlpClassesKeyError
             (''Intent: '' @ snd p @ '' is not in the NLP component hierarchy''))"

text \<open>The hierarchy of the smart home example.\<close>

definition smart_home :: hierarchy where
  "smart_home = [''smart_home'' \<mapsto> [''close_door'', ''open_door'']]"

subsection \<open>Dispatch of a batch to the worker pool\<close>

text \<open>
  The process pool is external. What \<^verbatim>\<open>Processor._process_list\<close> sees of it is the
  state of each submitted future when \<^verbatim>\<open>wait(..., timeout=SUBPROCESS_WAIT_TIME)\<close>
  returns: completed with a result, completed with an exception (a worker that left through
  \<^verbatim>\<open>sys.exit(1)\<close> breaks the pool), or still pending. Futures are named by their
  submission index, the value \<^verbatim>\<open>future_to_idx_map\<close> gives them. \<^verbatim>\<open>tasks.done\<close> is a
  set: the model takes the order in which the loop meets its members as a list of indices.
  \<^verbatim>\<open>executor.submit\<close> itself may raise on a broken pool.
\<close>

datatype 'b future = Completed 'b | Raised | Pending

datatype 'b pool_run = SubmitRaised | Waited "'b future list" "nat list"

text \<open>
  The global \<^verbatim>\<open>executor\<close> is \<^verbatim>\<open>None\<close> or a pool, named by a number;
  \<^verbatim>\<open>restart_subprocesses\<close> replaces it by a new pool.
\<close>

type_synonym executor = "nat option"

definition restart_subprocesses :: "executor \<Rightarrow> executor" where
  "restart_subprocesses executor =
     (case executor of None \<Rightarrow> None | Some pool \<Rightarrow> Some (Suc pool))"

text \<open>
  \<^verbatim>\<open>for future in tasks.done: item = future.result(); results[item_idx] = item\<close>.
  The list \<^verbatim>\<open>results\<close> starts as a copy of the items and receives results: its
  elements are items (\<open>Inl\<close>) or results (\<open>Inr\<close>). \<open>None\<close> is an exception raised by
  \<^verbatim>\<open>future.result()\<close>.
\<close>

fun gather :: "'b future list \<Rightarrow> nat list \<Rightarrow> ('a + 'b) list \<Rightarrow> ('a + 'b) list option" where
  "gather futures [] results = Some results"
| "gather futures (item_idx # finished) results =
     (case futures ! item_idx of
        Completed item \<Rightarrow> gather futures finished (results[item_idx := Inr item])
      | Raised \<Rightarrow> None
      | Pending \<Rightarrow> None)"

text \<open>
  The \<^verbatim>\<open>try\<close> block: \<open>None\<close> when it leaves through an exception
  (\<^verbatim>\<open>raise Exception()\<close> when a task is not done).
\<close>

fun try_pool :: "'b pool_run \<Rightarrow> 'a list \<Rightarrow> ('a + 'b) list option" where
  "try_pool SubmitRaised items = None"
| "try_pool (Waited futures finished) items =
     (if Pending \<in> set futures then None
      else gather futures finished (map Inl items))"

text \<open>
  \<^verbatim>\<open>_process_list(self, items, func)\<close>, with the global executor before the call and
  what the pool does with this batch; the result is the returned tuple and the global
  executor after the call. \<open>func\<close> is the method named by \<^verbatim>\<open>func\<close>, run in this process.
\<close>

definition process_list ::
  "executor \<Rightarrow> 'b pool_run \<Rightarrow> ('a \<Rightarrow> 'b) \<Rightarrow> 'a list \<Rightarrow> ('a + 'b) list \<times> executor" where
  "process_list executor run func items =
     (case executor of
        None \<Rightarrow> (map (\<lambda>itm. Inr (func itm)) items, executor)
      | Some pool \<Rightarrow>
          (case try_pool run items of
             Some results \<Rightarrow> (results, executor)
           | None \<Rightarrow> (map (\<lambda>itm. Inr (func itm)) items, restart_subprocesses executor)))"

text \<open>The result a completed future holds.\<close>

fun result_of :: "'b future \<Rightarrow> 'b option" where
  "result_of (Completed item) = Some item"
| "result_of Raised = None"
| "result_of Pending = None"

subsection \<open>Processors and their lifecycle\<close>

text \<open>
  The components a processor owns are external: the domain and intent classifiers
  (above), the entity recognizer, the role classifier with its known roles, the entity
  resolver and the optional parser of an intent. The recognizer returns the entities of a
  query, with a confidence each when asked for probabilities; the role classifier receives
  the query, the entities and the index of the entity to classify; the resolver receives a
  list of \<^verbatim>\<open>Entity\<close> values.
\<close>

type_synonym confidence = "(string \<times> real) list"

record ('q, 'd) entity_recognizer =
  recognize :: "'q \<Rightarrow> 'd \<Rightarrow> query_entity list"
  recognize_proba :: "'q \<Rightarrow> 'd \<Rightarrow> (query_entity \<times> real) list"

record 'q role_classifier =
  roles :: "string list"
  role_predict :: "'q \<Rightarrow> query_entity list \<Rightarrow> nat \<Rightarrow> string"
  role_predict_proba :: "'q \<Rightarrow> query_entity list \<Rightarrow> nat \<Rightarrow> confidence"

text \<open>
  The four subclasses of \<^verbatim>\<open>Processor\<close> with the components their constructors create;
  the third component of an intent processor is \<^verbatim>\<open>nbest_transcripts_enabled\<close>. A
  processor has the fields of the base class: \<^verbatim>\<open>ready\<close>, \<^verbatim>\<open>dirty\<close>,
  \<^verbatim>\<open>_incremental_timestamp\<close> and \<^verbatim>\<open>_children\<close>, a dictionary from labels to
  processors.
\<close>

datatype ('q, 'd) tier =
    NaturalLanguageProcessor "('q, 'd) classifier"
  | DomainProcessor "('q, 'd) classifier"
  | IntentProcessor "('q, 'd) entity_recognizer"
      "('q \<Rightarrow> query_entity list \<Rightarrow> query_entity list) option" bool
  | EntityProcessor "'q role_classifier" "entity list \<Rightarrow> string option"

datatype ('q, 'd) processor =
  Processor (ready: bool) (dirty: bool) (incremental_timestamp: "string option")
    (tier: "('q, 'd) tier") (children: "(string \<times> ('q, 'd) processor) list")

text \<open>
  The abstract methods \<^verbatim>\<open>_build\<close>, \<^verbatim>\<open>_dump\<close> and \<^verbatim>\<open>_load\<close> fit, save and restore
  external models, and \<^verbatim>\<open>resource_loader.query_cache.dump()\<close> writes a cache: each may
  raise. \<^verbatim>\<open>_build\<close> and \<^verbatim>\<open>_load\<close> return the processor as they leave it (an intent
  processor gets its entity processors there); \<^verbatim>\<open>_dump\<close> changes nothing of the
  processor.
\<close>

record ('q, 'd) hooks =
  hook_build :: "bool \<Rightarrow> ('q, 'd) processor \<Rightarrow> py_error + ('q, 'd) processor"
  hook_dump :: "('q, 'd) processor \<Rightarrow> py_error option"
  hook_load :: "string option \<Rightarrow> ('q, 'd) processor \<Rightarrow> py_error + ('q, 'd) processor"
  query_cache_dump :: "py_error option"

fun set_flags :: "bool \<Rightarrow> bool \<Rightarrow> ('q, 'd) processor \<Rightarrow> ('q, 'd) processor" where
  "set_flags r d (Processor _ _ ts t cs) = Processor r d ts t cs"

fun set_dirty :: "bool \<Rightarrow> ('q, 'd) processor \<Rightarrow> ('q, 'd) processor" where
  "set_dirty d (Processor r _ ts t cs) = Processor r d ts t cs"

fun set_incremental_timestamp ::
  "string option \<Rightarrow> ('q, 'd) processor \<Rightarrow> ('q, 'd) processor" where
  "set_incremental_timestamp ts (Processor r d _ t cs) = Processor r d ts t cs"

fun set_children ::
  "(string \<times> ('q, 'd) processor) list \<Rightarrow> ('q, 'd) processor \<Rightarrow> ('q, 'd) processor" where
  "set_children cs (Processor r d ts t _) = Processor r d ts t cs"

text \<open>
  \<^verbatim>\<open>Processor.dump\<close>: \<^verbatim>\<open>_dump\<close>, then \<^verbatim>\<open>dump\<close> of every child, then the query cache,
  then \<^verbatim>\<open>self.dirty = False\<close>.
\<close>

fun dump :: "('q, 'd) hooks \<Rightarrow> ('q, 'd) processor \<Rightarrow> py_error + ('q, 'd) processor"
  and dump_children ::
    "('q, 'd) hooks \<Rightarrow> (string \<times> ('q, 'd) processor) list
     \<Rightarrow> py_error + (string \<times> ('q, 'd) processor) list" where
  "dump h (Processor r d ts t cs) =
     (case hook_dump h (Processor r d ts t cs) of
        Some e \<Rightarrow> Inl e
      | None \<Rightarrow>
          (case dump_children h cs of
             Inl e \<Rightarrow> Inl e
           | Inr cs' \<Rightarrow>
               (case query_cache_dump h of
                  Some e \<Rightarrow> Inl e
                | None \<Rightarrow> Inr (Processor r False ts t cs'))))"
| "dump_children h [] = Inr []"
| "dump_children h ((label, child) # rest) =
     (case dump h child of
        Inl e \<Rightarrow> Inl e
      | Inr child' \<Rightarrow>
          (case dump_children h rest of
             Inl e \<Rightarrow> Inl e
           | Inr rest' \<Rightarrow> Inr ((label, child') # rest')))"

text \<open>
  \<^verbatim>\<open>Processor.build\<close>: \<^verbatim>\<open>_build\<close>, \<^verbatim>\<open>_dump\<close> when incremental, then for every child
  (of the processor as \<^verbatim>\<open>_build\<close> left it) the timestamp, \<^verbatim>\<open>build\<close> and, when
  incremental, \<^verbatim>\<open>dump\<close>; then the query cache and
  \<^verbatim>\<open>self.ready = True; self.dirty = True\<close>. The children come from \<^verbatim>\<open>_build\<close>, so the
  recursion takes its depth as a bound: the first argument counts the nested calls the
  interpreter still allows, and Python raises \<^verbatim>\<open>RecursionError\<close> beyond them.
\<close>

fun build ::
  "nat \<Rightarrow> ('q, 'd) hooks \<Rightarrow> bool \<Rightarrow> ('q, 'd) processor \<Rightarrow> py_error + ('q, 'd) processor"
  and build_children ::
    "nat \<Rightarrow> ('q, 'd) hooks \<Rightarrow> bool \<Rightarrow> string option \<Rightarrow> (string \<times> ('q, 'd) processor) list
     \<Rightarrow> py_error + (string \<times> ('q, 'd) processor) list" where
  "build 0 h incremental p = Inl RecursionError"
| "build (Suc depth) h incremental p =
     (case hook_build h incremental p of
        Inl e \<Rightarrow> Inl e
      | Inr p1 \<Rightarrow>
          (case (if incremental then hook_dump h p1 else None) of
             Some e \<Rightarrow> Inl e
           | None \<Rightarrow>
               (case build_children depth h incremental (incremental_timestamp p1)
                       (children p1) of
                  Inl e \<Rightarrow> Inl e
                | Inr cs \<Rightarrow>
                    (case query_cache_dump h of
                       Some e \<Rightarrow> Inl e
                     | None \<Rightarrow> Inr (set_flags True True (set_children cs p1))))))"
| "build_children depth h incremental ts [] = Inr []"
| "build_children depth h incremental ts ((label, child) # rest) =
     (case build depth h incremental (set_incremental_timestamp ts child) of
        Inl e \<Rightarrow> Inl e
      | Inr child1 \<Rightarrow>
          (case (if incremental then dump h child1 else Inr child1) of
             Inl e \<Rightarrow> Inl e
           | Inr child2 \<Rightarrow>
               (case build_children depth h incremental ts rest of
                  Inl e \<Rightarrow> Inl e
                | Inr rest' \<Rightarrow> Inr ((label, child2) # rest'))))"

text \<open>
  \<^verbatim>\<open>Processor.load\<close>: \<^verbatim>\<open>_load\<close>, then \<^verbatim>\<open>load\<close> of every child, then
  \<^verbatim>\<open>self.ready = True; self.dirty = False\<close>.
\<close>

fun load ::
  "nat \<Rightarrow> ('q, 'd) hooks \<Rightarrow> string option \<Rightarrow> ('q, 'd) processor
   \<Rightarrow> py_error + ('q, 'd) processor"
  and load_children ::
    "nat \<Rightarrow> ('q, 'd) hooks \<Rightarrow> string option \<Rightarrow> (string \<times> ('q, 'd) processor) list
     \<Rightarrow> py_error + (string \<times> ('q, 'd) processor) list" where
  "load 0 h ts p = Inl RecursionError"
| "load (Suc depth) h ts p =
     (case hook_load h ts p of
        Inl e \<Rightarrow> Inl e
      | Inr p1 \<Rightarrow>
          (case load_children depth h ts (children p1) of
             Inl e \<Rightarrow> Inl e
           | Inr cs \<Rightarrow> Inr (set_flags True False (set_children cs p1))))"
| "load_children depth h ts [] = Inr []"
| "load_children depth h ts ((label, child) # rest) =
     (case load depth h ts child of
        Inl e \<Rightarrow> Inl e
      | Inr child' \<Rightarrow>
          (case load_children depth h ts rest of
             Inl e \<Rightarrow> Inl e
           | Inr rest' \<Rightarrow> Inr ((label, child') # rest')))"

subsection \<open>Objects, calls and exceptions\<close>

text \<open>
  \<^verbatim>\<open>QueryEntity\<close> objects are mutable and shared: the model keeps them in a store, a
  list indexed by references, and creates an object by appending it. The state of a
  run is the store, the global executor and the calls this process has made to the
  external components. A computation returns a result or raises, and leaves a state either
  way.
\<close>

type_synonym addr = nat

datatype component =
  DomainClassifier | IntentClassifier | EntityRecognizer | RoleClassifier | EntityResolver

record state =
  objects :: "query_entity list"
  pool :: executor
  calls :: "(component \<times> classifier_call) list"

type_synonym 'a run = "state \<Rightarrow> (py_error + 'a) \<times> state"

definition return :: "'a \<Rightarrow> 'a run" where
  "return x s = (Inr x, s)"

definition raise :: "py_error \<Rightarrow> 'a run" where
  "raise e s = (Inl e, s)"

definition bind :: "'a run \<Rightarrow> ('a \<Rightarrow> 'b run) \<Rightarrow> 'b run" where
  "bind m f s = (case m s of (Inl e, s') \<Rightarrow> (Inl e, s') | (Inr x, s') \<Rightarrow> f x s')"

definition get_objects :: "query_entity list run" where
  "get_objects s = (Inr (objects s), s)"

definition allocate :: "query_entity list \<Rightarrow> addr list run" where
  "allocate vs s =
     (Inr [length (objects s)..<length (objects s) + length vs],
      s\<lparr>objects := objects s @ vs\<rparr>)"

definition modify :: "addr \<Rightarrow> (query_entity \<Rightarrow> query_entity) \<Rightarrow> unit run" where
  "modify a f s = (Inr (), s\<lparr>objects := (objects s)[a := f (objects s ! a)]\<rparr>)"

definition consult :: "component \<Rightarrow> classifier_call \<Rightarrow> unit run" where
  "consult c k s = (Inr (), s\<lparr>calls := calls s @ [(c, k)]\<rparr>)"

text \<open>A label selection of the previous section as a computation.\<close>

definition selection ::
  "component \<Rightarrow> (py_error + 'a) \<times> classifier_call list \<Rightarrow> 'a run" where
  "selection c r s = (fst r, s\<lparr>calls := calls s @ map (Pair c) (snd r)\<rparr>)"

text \<open>The computations of a list, in order, up to the first that raises.\<close>

fun in_series :: "'a run list \<Rightarrow> 'a list run" where
  "in_series [] = return []"
| "in_series (m # ms) = bind m (\<lambda>x. bind (in_series ms) (\<lambda>xs. return (x # xs)))"

subsection \<open>The entity tier\<close>

text \<open>\<^verbatim>\<open>Processor._check_ready\<close>.\<close>

definition check_ready :: "('q, 'd) processor \<Rightarrow> unit run" where
  "check_ready p = (if \<not> ready p then raise ProcessorError else return ())"

text \<open>
  \<^verbatim>\<open>EntityProcessor.process_entity(query, entities, entity_index, verbose)\<close>; the
  entities are references, and the role is written into the object
  \<^verbatim>\<open>entities[entity_index]\<close>. A method of \<^verbatim>\<open>EntityProcessor\<close> on a processor of another
  class does not exist.
\<close>

definition process_entity ::
  "('q, 'd) processor \<Rightarrow> 'q \<Rightarrow> addr list \<Rightarrow> nat \<Rightarrow> bool \<Rightarrow> (addr \<times> confidence option) run" where
  "process_entity p query entities entity_index verbose =
     bind (check_ready p) (\<lambda>_.
       case tier p of
         EntityProcessor role_classifier entity_resolver \<Rightarrow>
           if entity_index < length entities then
             (let ent = entities ! entity_index in
              if roles role_classifier \<noteq> [] then
                (if verbose then
                   bind (consult RoleClassifier PredictProba) (\<lambda>_.
                   bind get_objects (\<lambda>h.
                     case role_predict_proba role_classifier query
                            (map (\<lambda>a. h ! a) entities) entity_index of
                       [] \<Rightarrow> raise IndexError
                     | (r, score) # rest \<Rightarrow>
                         bind (modify ent (\<lambda>e. e\<lparr>entity := (entity e)\<lparr>role := Some r\<rparr>\<rparr>)) (\<lambda>_.
                         return (ent, Some ((r, score) # rest)))))
                 else
                   bind (consult RoleClassifier Predict) (\<lambda>_.
                   bind get_objects (\<lambda>h.
                   bind (modify ent (\<lambda>e. e\<lparr>entity := (entity e)\<lparr>role :=
                           Some (role_predict role_classifier query
                                   (map (\<lambda>a. h ! a) entities) entity_index)\<rparr>\<rparr>)) (\<lambda>_.
                   return (ent, None)))))
              else return (ent, None))
           else raise IndexError
       | _ \<Rightarrow> raise AttributeError)"

text \<open>
  \<^verbatim>\<open>EntityProcessor.resolve_entity(entity, aligned_entity_spans=None)\<close>;
  \<^verbatim>\<open>if aligned_entity_spans\<close> holds of a list that is not empty.
\<close>

definition resolve_entity ::
  "('q, 'd) processor \<Rightarrow> addr \<Rightarrow> addr list option \<Rightarrow> addr run" where
  "resolve_entity p ent aligned_entity_spans =
     bind (check_ready p) (\<lambda>_.
       case tier p of
         EntityProcessor role_classifier entity_resolver \<Rightarrow>
           bind get_objects (\<lambda>h.
             let entity_list =
                   (case aligned_entity_spans of
                      Some (e # es) \<Rightarrow> map (\<lambda>a. entity (h ! a)) (e # es)
                    | _ \<Rightarrow> [entity (h ! ent)]) in
             bind (consult EntityResolver Predict) (\<lambda>_.
             bind (modify ent (\<lambda>e. e\<lparr>entity := (entity e)\<lparr>resolved :=
                     entity_resolver entity_list\<rparr>\<rparr>)) (\<lambda>_.
             return ent)))
       | _ \<Rightarrow> raise AttributeError)"

text \<open>\<^verbatim>\<open>EntityProcessor.process_query\<close> deletes its arguments and raises.\<close>

definition entity_process_query ::
  "('q, 'd) processor \<Rightarrow> 'q \<Rightarrow> string list option \<Rightarrow> 'd \<Rightarrow> bool \<Rightarrow> unit run" where
  "entity_process_query p query allowed_nlp_classes dynamic_resource verbose =
     raise NotImplementedError"

subsection \<open>Dispatch of a method that reads and writes objects\<close>

text \<open>
  \<^verbatim>\<open>Processor._process_list\<close> again, for a method \<open>func\<close> that works on the store.
  Without a pool, and after a failed batch, the method runs on each item in this process,
  in list order. A worker runs it on its own copy of the state of this process: what comes
  back is the pickled result (\<open>pickle\<close> reads it from the worker's store), which enters the
  store of this process as new objects (\<open>unpickle\<close>); a worker in which the method raises
  leaves through \<^verbatim>\<open>sys.exit(1)\<close>. The pool says, for each future, whether it completed,
  broke or is pending, and in which order the completed ones are met. An item whose slot of
  \<^verbatim>\<open>results\<close> no future has overwritten is not a result.
\<close>

definition worker ::
  "('a \<Rightarrow> 'b run) \<Rightarrow> ('b \<Rightarrow> query_entity list \<Rightarrow> 'v) \<Rightarrow> state \<Rightarrow> unit future \<Rightarrow> 'a
   \<Rightarrow> 'v future" where
  "worker func pickle s status item =
     (case status of
        Completed _ \<Rightarrow>
          (case func item s of
             (Inr r, s') \<Rightarrow> Completed (pickle r (objects s'))
           | (Inl e, s') \<Rightarrow> Raised)
      | Raised \<Rightarrow> Raised
      | Pending \<Rightarrow> Pending)"

definition process_list_run ::
  "unit pool_run \<Rightarrow> ('a \<Rightarrow> 'b run) \<Rightarrow> ('b \<Rightarrow> query_entity list \<Rightarrow> 'v) \<Rightarrow> ('v \<Rightarrow> 'b run)
   \<Rightarrow> 'a list \<Rightarrow> 'b list run" where
  "process_list_run run func pickle unpickle items s =
     (case pool s of
        None \<Rightarrow> in_series (map func items) s
      | Some _ \<Rightarrow>
          (case (case run of
                   SubmitRaised \<Rightarrow> None
                 | Waited statuses finished \<Rightarrow>
                     try_pool
                       (Waited (map (\<lambda>(status, item). worker func pickle s status item)
                                  (zip statuses items)) finished)
                       items) of
             Some results \<Rightarrow>
               in_series
                 (map (\<lambda>r. case r of Inr v \<Rightarrow> unpickle v | Inl item \<Rightarrow> raise TypeError)
                    results) s
           | None \<Rightarrow>
               in_series (map func items) (s\<lparr>pool := restart_subprocesses (pool s)\<rparr>)))"

subsection \<open>The intent tier\<close>

text \<open>
  The query argument of \<^verbatim>\<open>process_query\<close> is a \<^verbatim>\<open>Query\<close> or a list or tuple of them.
  The recognizer returns a list of entities, or of (entity, confidence) pairs when
  probabilities are asked for; in the store the entities are references.
\<close>

datatype 'q query_arg = One 'q | Many "'q list"

datatype prediction = Entities "query_entity list" | ScoredEntities "(query_entity \<times> real) list"

datatype transcript = Plain "addr list" | Scored "(addr \<times> real) list"

fun refs_of :: "transcript \<Rightarrow> addr list" where
  "refs_of (Plain refs) = refs"
| "refs_of (Scored pairs) = map fst pairs"

definition predict_entities ::
  "('q, 'd) entity_recognizer \<Rightarrow> 'd \<Rightarrow> bool \<Rightarrow> 'q \<Rightarrow> prediction" where
  "predict_entities recognizer dynamic_resource verbose query =
     (if verbose then ScoredEntities (recognize_proba recognizer query dynamic_resource)
      else Entities (recognize recognizer query dynamic_resource))"

text \<open>The entities of a prediction become objects of the store.\<close>

definition new_objects :: "prediction \<Rightarrow> transcript run" where
  "new_objects prediction =
     (case prediction of
        Entities es \<Rightarrow> bind (allocate es) (\<lambda>refs. return (Plain refs))
      | ScoredEntities pairs \<Rightarrow>
          bind (allocate (map fst pairs)) (\<lambda>refs. return (Scored (zip refs (map snd pairs)))))"

definition pickle_transcript :: "transcript \<Rightarrow> query_entity list \<Rightarrow> prediction" where
  "pickle_transcript t h =
     (case t of
        Plain refs \<Rightarrow> Entities (map (\<lambda>a. h ! a) refs)
      | Scored pairs \<Rightarrow> ScoredEntities (map (\<lambda>(a, score). (h ! a, score)) pairs))"

text \<open>
  \<^verbatim>\<open>IntentProcessor._recognize_entities\<close> on one \<^verbatim>\<open>Query\<close>, and on the tuple of
  queries that \<^verbatim>\<open>process_query\<close> passes.
\<close>

definition recognize_query ::
  "('q, 'd) entity_recognizer \<Rightarrow> 'd \<Rightarrow> bool \<Rightarrow> 'q \<Rightarrow> transcript run" where
  "recognize_query recognizer dynamic_resource verbose query =
     bind (consult EntityRecognizer (if verbose then PredictProba else Predict)) (\<lambda>_.
     new_objects (predict_entities recognizer dynamic_resource verbose query))"

definition recognize_entities ::
  "('q, 'd) processor \<Rightarrow> unit pool_run \<Rightarrow> 'q list \<Rightarrow> 'd \<Rightarrow> bool \<Rightarrow> transcript list run" where
  "recognize_entities p run query dynamic_resource verbose =
     (case tier p of
        IntentProcessor recognizer parser nbest_transcripts_enabled \<Rightarrow>
          if nbest_transcripts_enabled
          then process_list_run run (recognize_query recognizer dynamic_resource verbose)
                 pickle_transcript new_objects query
          else (case query of
                  [] \<Rightarrow> raise IndexError
                | q # _ \<Rightarrow>
                    bind (recognize_query recognizer dynamic_resource verbose q) (\<lambda>t.
                    return [t]))
      | _ \<Rightarrow> raise AttributeError)"

text \<open>
  \<^verbatim>\<open>IntentProcessor._get_pred_entities\<close>. With probabilities and a reference transcript
  that is not empty, the confidences are split off and only the reference transcript is
  kept. Unpacking \<^verbatim>\<open>entity, score\<close> from an entity that is not a pair raises.
\<close>

definition get_pred_entities ::
  "('q, 'd) processor \<Rightarrow> unit pool_run \<Rightarrow> 'q list \<Rightarrow> 'd \<Rightarrow> bool
   \<Rightarrow> ((string \<times> real) list \<times> transcript list) run" where
  "get_pred_entities p run query dynamic_resource verbose =
     bind (recognize_entities p run query dynamic_resource verbose) (\<lambda>entities.
       case entities of
         [] \<Rightarrow> raise IndexError
       | pred_entities # _ \<Rightarrow>
           if verbose \<and> length (refs_of pred_entities) > 0 then
             (case pred_entities of
                Scored pairs \<Rightarrow>
                  bind get_objects (\<lambda>h.
                  return (map (\<lambda>(a, score). (etype (entity (h ! a)), score)) pairs,
                          [Plain (map fst pairs)]))
              | Plain refs \<Rightarrow> raise TypeError)
           else return ([], entities))"

text \<open>
  \<^verbatim>\<open>_align_entities\<close> on the transcripts of the store. An (entity, confidence) pair
  has no \<^verbatim>\<open>span\<close>: a transcript of pairs raises \<^verbatim>\<open>AttributeError\<close> when the loops
  reach one of its members. A reference transcript of pairs that is not empty is not
  produced by \<open>get_pred_entities\<close>; the model raises for it the \<^verbatim>\<open>AttributeError\<close> that
  the first use of its members raises.
\<close>

definition align_recognized :: "bool \<Rightarrow> transcript list \<Rightarrow> addr list list run" where
  "align_recognized nbest_transcripts_enabled entities =
     bind get_objects (\<lambda>h.
       case entities of
         [] \<Rightarrow> raise IndexError
       | Scored (pair # pairs) # rest \<Rightarrow> raise AttributeError
       | reference # rest \<Rightarrow>
           if length entities > 1 \<and> nbest_transcripts_enabled
              \<and> (\<exists>t\<in>set rest. case t of Scored (pair # pairs) \<Rightarrow> True | _ \<Rightarrow> False)
           then raise AttributeError
           else (case align_entities (\<lambda>a. h ! a) nbest_transcripts_enabled
                        (map refs_of entities) of
                   Inl e \<Rightarrow> raise e
                 | Inr aligned_entities \<Rightarrow> return aligned_entities))"

text \<open>
  \<^verbatim>\<open>IntentProcessor._classify_and_resolve_entities\<close>: the entity processor of the
  entity's type classifies the role, then resolves the value from the aligned group.
\<close>

definition classify_and_resolve_entities ::
  "('q, 'd) processor \<Rightarrow> nat \<Rightarrow> 'q \<Rightarrow> addr list \<Rightarrow> addr list list \<Rightarrow> bool
   \<Rightarrow> (addr \<times> confidence option) run" where
  "classify_and_resolve_entities p idx query processed_entities aligned_entities verbose =
     (if idx < length processed_entities then
        bind get_objects (\<lambda>h.
          case map_of (children p) (etype (entity (h ! (processed_entities ! idx)))) of
            None \<Rightarrow> raise KeyError
          | Some entity_processor \<Rightarrow>
              bind (process_entity entity_processor query processed_entities idx verbose)
                (\<lambda>(ent, role_confidence).
              bind get_objects (\<lambda>h.
                case map_of (children p) (etype (entity (h ! ent))) of
                  None \<Rightarrow> raise KeyError
                | Some entity_processor \<Rightarrow>
                    if idx < length aligned_entities then
                      bind (resolve_entity entity_processor ent (Some (aligned_entities ! idx)))
                        (\<lambda>ent. return (ent, role_confidence))
                    else raise IndexError)))
      else raise IndexError)"

definition pickle_entity ::
  "addr \<times> confidence option \<Rightarrow> query_entity list \<Rightarrow> query_entity \<times> confidence option" where
  "pickle_entity r h = (h ! fst r, snd r)"

definition unpickle_entity :: "query_entity \<times> confidence option \<Rightarrow> (addr \<times> confidence option) run" where
  "unpickle_entity v = bind (allocate [fst v]) (\<lambda>refs. return (hd refs, snd v))"

text \<open>
  \<^verbatim>\<open>IntentProcessor._process_entities\<close>: deep copies of the entities of the reference
  transcript, the role and value of each copy by index, then the parser when the intent
  has one. The parser is external: it receives the processed entities, and the model takes
  the list it returns as new objects.
\<close>

definition process_entities ::
  "('q, 'd) processor \<Rightarrow> unit pool_run \<Rightarrow> 'q list \<Rightarrow> transcript list \<Rightarrow> addr list list \<Rightarrow> bool
   \<Rightarrow> (addr list \<times> confidence option list) run" where
  "process_entities p run query entities aligned_entities verbose =
     (case tier p of
        IntentProcessor recognizer parser nbest_transcripts_enabled \<Rightarrow>
          (case query of
             [] \<Rightarrow> raise IndexError
           | q # _ \<Rightarrow>
               (case entities of
                  [] \<Rightarrow> raise IndexError
                | reference # _ \<Rightarrow>
                    bind get_objects (\<lambda>h.
                    bind (allocate (map (\<lambda>a. h ! a) (refs_of reference)))
                      (\<lambda>processed_entities.
                    bind (process_list_run run
                           (\<lambda>idx. classify_and_resolve_entities p idx q processed_entities
                                    aligned_entities verbose)
                           pickle_entity unpickle_entity [0..<length processed_entities])
                      (\<lambda>processed_entities_conf.
                    let processed =
                          (if processed_entities_conf \<noteq> []
                           then (map fst processed_entities_conf, map snd processed_entities_conf)
                           else (processed_entities, [])) in
                    case parser of
                      None \<Rightarrow> return processed
                    | Some parse_entities \<Rightarrow>
                        bind get_objects (\<lambda>h.
                        bind (allocate (parse_entities q (map (\<lambda>a. h ! a) (fst processed))))
                          (\<lambda>parsed. return (parsed, snd processed))))))))
      | _ \<Rightarrow> raise AttributeError)"

text \<open>
  \<^verbatim>\<open>ProcessedQuery\<close> with the fields the processors fill in, and its confidence
  dictionary with the keys \<^verbatim>\<open>entities\<close>, \<^verbatim>\<open>roles\<close>, \<^verbatim>\<open>intents\<close> and \<^verbatim>\<open>domains\<close>.
\<close>

record scores =
  entity_scores :: "(string \<times> real) list option"
  role_scores :: "confidence option list option"
  intent_scores :: "confidence option"
  domain_scores :: "confidence option"

record 'q processed_query =
  pq_query :: 'q
  pq_entities :: "addr list"
  pq_domain :: "string option"
  pq_intent :: "string option"
  pq_confidence :: scores
  nbest_transcripts_queries :: "'q list option"
  nbest_transcripts_entities :: "transcript list option"
  nbest_aligned_entities :: "addr list list option"

definition no_scores :: scores where
  "no_scores = \<lparr>entity_scores = None, role_scores = None, intent_scores = None,
                domain_scores = None\<rparr>"

text \<open>What the pool does with the two batches of one \<^verbatim>\<open>process_query\<close>.\<close>

record pool_runs =
  recognition_run :: "unit pool_run"
  entities_run :: "unit pool_run"

text \<open>\<^verbatim>\<open>IntentProcessor.process_query(query, dynamic_resource, verbose)\<close>.\<close>

definition intent_process_query ::
  "('q, 'd) processor \<Rightarrow> pool_runs \<Rightarrow> 'q query_arg \<Rightarrow> 'd \<Rightarrow> bool \<Rightarrow> 'q processed_query run" where
  "intent_process_query p runs query dynamic_resource verbose =
     bind (check_ready p) (\<lambda>_.
       case tier p of
         IntentProcessor recognizer parser nbest_transcripts_enabled \<Rightarrow>
           (let using_nbest_transcripts =
                  (case query of Many _ \<Rightarrow> nbest_transcripts_enabled | One _ \<Rightarrow> False);
                queries = (case query of Many qs \<Rightarrow> qs | One q \<Rightarrow> [q]) in
            bind (get_pred_entities p (recognition_run runs) queries dynamic_resource verbose)
              (\<lambda>(entity_confidence, entities).
            bind (align_recognized nbest_transcripts_enabled entities) (\<lambda>aligned_entities.
            bind (process_entities p (entities_run runs) queries entities aligned_entities
                    verbose)
              (\<lambda>(processed_entities, role_confidence).
            case queries of
              [] \<Rightarrow> raise IndexError
            | q # _ \<Rightarrow>
                return
                  \<lparr>pq_query = q,
                   pq_entities = processed_entities,
                   pq_domain = None,
                   pq_intent = None,
                   pq_confidence =
                     (if verbose
                      then no_scores\<lparr>entity_scores := Some entity_confidence,
                                      role_scores := Some role_confidence\<rparr>
                      else no_scores),
                   nbest_transcripts_queries =
                     (if using_nbest_transcripts then Some queries else None),
                   nbest_transcripts_entities =
                     (if using_nbest_transcripts then Some entities else None),
                   nbest_aligned_entities =
                     (if using_nbest_transcripts then Some aligned_entities else None)\<rparr>))))
       | _ \<Rightarrow> raise AttributeError)"

subsection \<open>The domain tier and the root\<close>

text \<open>\<^verbatim>\<open>query[0]\<close> of a list or tuple, the query itself otherwise.\<close>

fun top_query_of :: "'q query_arg \<Rightarrow> py_error + 'q" where
  "top_query_of (One q) = Inr q"
| "top_query_of (Many []) = Inl IndexError"
| "top_query_of (Many (q # _)) = Inr q"

text \<open>
  \<^verbatim>\<open>if intent_proba:\<close> holds of a list that is not empty; the confidences then enter
  the dictionary of the processed query.
\<close>

fun truthy :: "confidence option \<Rightarrow> bool" where
  "truthy None = False"
| "truthy (Some proba) = (proba \<noteq> [])"

text \<open>\<^verbatim>\<open>DomainProcessor.process_query(query, allowed_nlp_classes, dynamic_resource, verbose)\<close>.\<close>

definition domain_process_query ::
  "('q, 'd) processor \<Rightarrow> pool_runs \<Rightarrow> 'q query_arg \<Rightarrow> string list option \<Rightarrow> 'd \<Rightarrow> bool
   \<Rightarrow> 'q processed_query run" where
  "domain_process_query p runs query allowed_nlp_classes dynamic_resource verbose =
     bind (check_ready p) (\<lambda>_.
       case tier p of
         DomainProcessor intent_classifier \<Rightarrow>
           (case top_query_of query of
              Inl e \<Rightarrow> raise e
            | Inr top_query \<Rightarrow>
                bind (selection IntentClassifier
                        (select_intent (map fst (children p)) intent_classifier top_query
                           allowed_nlp_classes dynamic_resource verbose))
                  (\<lambda>(intent, intent_proba).
                case map_of (children p) intent of
                  None \<Rightarrow> raise KeyError
                | Some intent_processor \<Rightarrow>
                    bind (intent_process_query intent_processor runs query dynamic_resource
                            verbose)
                      (\<lambda>processed_query.
                    return
                      (processed_query
                         \<lparr>pq_intent := Some intent,
                          pq_confidence :=
                            (if truthy intent_proba
                             then (pq_confidence processed_query)
                                    \<lparr>intent_scores := intent_proba\<rparr>
                             else pq_confidence processed_query)\<rparr>))))
       | _ \<Rightarrow> raise AttributeError)"

text \<open>
  \<^verbatim>\<open>NaturalLanguageProcessor.process_query\<close>; \<^verbatim>\<open>allowed_nlp_classes\<close> maps the
  allowed domains to their allowed intents.
\<close>

definition nlp_process_query ::
  "('q, 'd) processor \<Rightarrow> pool_runs \<Rightarrow> 'q query_arg \<Rightarrow> (string \<times> string list) list option
   \<Rightarrow> 'd \<Rightarrow> bool \<Rightarrow> 'q processed_query run" where
  "nlp_process_query p runs query allowed_nlp_classes dynamic_resource verbose =
     bind (check_ready p) (\<lambda>_.
       case tier p of
         NaturalLanguageProcessor domain_classifier \<Rightarrow>
           (case top_query_of query of
              Inl e \<Rightarrow> raise e
            | Inr top_query \<Rightarrow>
                bind (selection DomainClassifier
                        (process_domain (map fst (children p)) domain_classifier top_query
                           (map_option (map fst) allowed_nlp_classes) dynamic_resource verbose))
                  (\<lambda>(domain, domain_proba).
                let allowed_intents =
                      (case allowed_nlp_classes of
                         None \<Rightarrow> None
                       | Some [] \<Rightarrow> None
                       | Some allowed \<Rightarrow> map_of allowed domain) in
                case map_of (children p) domain of
                  None \<Rightarrow> raise KeyError
                | Some domain_processor \<Rightarrow>
                    bind (domain_process_query domain_processor runs query allowed_intents
                            dynamic_resource verbose)
                      (\<lambda>processed_query.
                    return
                      (processed_query
                         \<lparr>pq_domain := Some domain,
                          pq_confidence :=
                            (if truthy domain_proba
                             then (pq_confidence processed_query)
                                    \<lparr>domain_scores := domain_proba\<rparr>
                             else pq_confidence processed_query)\<rparr>))))
       | _ \<Rightarrow> raise AttributeError)"

subsection \<open>Example processors\<close>

text \<open>
  Hooks under which every external step succeeds and leaves the processor as it is, and a
  small hierarchy, not yet built: one domain with one intent.
\<close>

definition quiet_hooks :: "(unit, unit) hooks" where
  "quiet_hooks =
     \<lparr>hook_build = (\<lambda>incremental p. Inr p), hook_dump = (\<lambda>p. None),
      hook_load = (\<lambda>ts p. Inr p), query_cache_dump = None\<rparr>"

definition no_entities :: "(unit, unit) entity_recognizer" where
  "no_entities = \<lparr>recognize = (\<lambda>_ _. []), recognize_proba = (\<lambda>_ _. [])\<rparr>"

definition unbuilt_intent :: "(unit, unit) processor" where
  "unbuilt_intent = Processor False False None (IntentProcessor no_entities None False) []"

definition unbuilt_domain :: "(unit, unit) processor" where
  "unbuilt_domain =
     Processor False False None (DomainProcessor knows_d) [(''close_door'', unbuilt_intent)]"

definition unbuilt_nlp :: "(unit, unit) processor" where
  "unbuilt_nlp =
     Processor False False None (NaturalLanguageProcessor knows_d)
       [(''smart_home'', unbuilt_domain)]"

text \<open>
  An entity processor of a type without roles and one of a type with the roles
  \<^verbatim>\<open>from\<close> and \<^verbatim>\<open>to\<close>; their resolver returns the text of the first entity it is given.
\<close>

definition first_text :: "entity list \<Rightarrow> string option" where
  "first_text entity_list = (case entity_list of [] \<Rightarrow> None | e # _ \<Rightarrow> Some (etext e))"

definition without_roles :: "unit role_classifier" where
  "without_roles =
     \<lparr>roles = [], role_predict = (\<lambda>_ _ _. ''none''), role_predict_proba = (\<lambda>_ _ _. [])\<rparr>"

definition with_roles :: "unit role_classifier" where
  "with_roles =
     \<lparr>roles = [''from'', ''to''], role_predict = (\<lambda>_ _ _. ''to''),
      role_predict_proba = (\<lambda>_ _ _. [(''to'', 1)])\<rparr>"

definition number_processor :: "bool \<Rightarrow> (unit, unit) processor" where
  "number_processor r = Processor r False None (EntityProcessor without_roles first_text) []"

definition city_processor :: "bool \<Rightarrow> (unit, unit) processor" where
  "city_processor r = Processor r False None (EntityProcessor with_roles first_text) []"

definition empty_state :: state where
  "empty_state = \<lparr>objects = [], pool = None, calls = []\<rparr>"

subsection \<open>What a computation does to the store\<close>

text \<open>
  Two properties of a computation. It \<open>creates\<close> objects of a set \<open>V\<close> when all it does to
  the store is append objects of \<open>V\<close>, and the references in its result (\<open>refs\<close>) are
  references to appended objects. It \<open>keeps\<close> the objects below \<open>n\<close> when, started with at
  least \<open>n\<close> objects, it leaves the first \<open>n\<close> as they are and never shortens the store,
  and its result satisfies \<open>P\<close>.
\<close>

definition creates :: "query_entity set \<Rightarrow> ('a \<Rightarrow> addr set) \<Rightarrow> 'a run \<Rightarrow> bool" where
  "creates V refs m \<longleftrightarrow>
     (\<forall>s r s'. m s = (r, s') \<longrightarrow>
        (\<exists>vs. objects s' = objects s @ vs \<and> set vs \<subseteq> V) \<and>
        (\<forall>x. r = Inr x \<longrightarrow> refs x \<subseteq> {length (objects s)..<length (objects s')}))"

definition keeps :: "nat \<Rightarrow> ('a \<Rightarrow> bool) \<Rightarrow> 'a run \<Rightarrow> bool" where
  "keeps n P m \<longleftrightarrow>
     (\<forall>s r s'. n \<le> length (objects s) \<longrightarrow> m s = (r, s') \<longrightarrow>
        length (objects s) \<le> length (objects s') \<and>
        (\<forall>a<n. objects s' ! a = objects s ! a) \<and>
        (\<forall>x. r = Inr x \<longrightarrow> P x))"

text \<open>The entities the recognizer of an intent processor can return for a list of queries.\<close>

definition recognizable :: "('q, 'd) processor \<Rightarrow> 'q list \<Rightarrow> 'd \<Rightarrow> query_entity set" where
  "recognizable p queries dynamic_resource =
     (case tier p of
        IntentProcessor recognizer parser nbest_transcripts_enabled \<Rightarrow>
          (\<Union>q\<in>set queries. set (recognize recognizer q dynamic_resource)
                             \<union> fst ` set (recognize_proba recognizer q dynamic_resource))
      | _ \<Rightarrow> {})"

text \<open>
  The pool is consistent with a batch of \<open>n\<close> items when it has one future per item and
  the completed futures it hands over are among them.
\<close>

definition consistent :: "unit pool_run \<Rightarrow> nat \<Rightarrow> bool" where
  "consistent run n \<longleftrightarrow>
     (case run of
        SubmitRaised \<Rightarrow> True
      | Waited statuses finished \<Rightarrow> length statuses = n \<and> (\<forall>i\<in>set finished. i < n))"

definition queries_of :: "'q query_arg \<Rightarrow> 'q list" where
  "queries_of query = (case query of Many qs \<Rightarrow> qs | One q \<Rightarrow> [q])"

text \<open>The entities of a prediction, and the references of a list of transcripts.\<close>

fun entities_of :: "prediction \<Rightarrow> query_entity list" where
  "entities_of (Entities es) = es"
| "entities_of (ScoredEntities pairs) = map fst pairs"

definition all_refs :: "transcript list \<Rightarrow> addr set" where
  "all_refs transcripts = (\<Union>t\<in>set transcripts. set (refs_of t))"

text \<open>
  A processed copy \<open>c\<close> of an entity \<open>original\<close>, for the store \<open>h\<close> and the aligned group
  \<open>members\<close>: type, text and span of the original, a role when the entity processor of
  the type has roles, and as value the answer of its resolver for the entities of the
  group.
\<close>

definition processed_copy ::
  "('q, 'd) processor \<Rightarrow> query_entity list \<Rightarrow> addr list \<Rightarrow> query_entity \<Rightarrow> query_entity \<Rightarrow> bool" where
  "processed_copy p h members original c \<longleftrightarrow>
     span c = span original
     \<and> etype (entity c) = etype (entity original)
     \<and> etext (entity c) = etext (entity original)
     \<and> (case map_of (children p) (etype (entity c)) of
          None \<Rightarrow> False
        | Some entity_processor \<Rightarrow>
            (case tier entity_processor of
               EntityProcessor role_classifier entity_resolver \<Rightarrow>
                 (roles role_classifier \<noteq> [] \<longrightarrow> role (entity c) \<noteq> None)
                 \<and> resolved (entity c) = entity_resolver (map (\<lambda>b. entity (h ! b)) members)
             | _ \<Rightarrow> False))"

text \<open>
  An intent with n-best transcripts enabled whose recognizer finds a city in every query,
  the text of the query, and whose city entities have the roles \<^verbatim>\<open>from\<close> and \<^verbatim>\<open>to\<close>;
  a run on two transcripts without a pool, its final store and its result.
\<close>

definition heard_city :: "(string, unit) entity_recognizer" where
  "heard_city =
     \<lparr>recognize = (\<lambda>query _. [recognized ''city'' query 0 5]),
      recognize_proba = (\<lambda>query _. [(recognized ''city'' query 0 5, 1)])\<rparr>"

definition arrival :: "string role_classifier" where
  "arrival =
     \<lparr>roles = [''from'', ''to''], role_predict = (\<lambda>_ _ _. ''to''),
      role_predict_proba = (\<lambda>_ _ _. [(''to'', 1)])\<rparr>"

definition travel :: "(string, unit) processor" where
  "travel =
     Processor True False None (IntentProcessor heard_city None True)
       [(''city'', Processor True False None (EntityProcessor arrival first_text) [])]"

definition in_process :: pool_runs where
  "in_process = \<lparr>recognition_run = SubmitRaised, entities_run = SubmitRaised\<rparr>"

definition travel_store :: state where
  "travel_store =
     \<lparr>objects =
        [recognized ''city'' ''Paris'' 0 5, recognized ''city'' ''Pares'' 0 5,
         \<lparr>entity = \<lparr>etype = ''city'', etext = ''Paris'', role = Some ''to'',
                     resolved = Some ''Paris''\<rparr>,
          span = \<lparr>span_start = 0, span_end = 5\<rparr>\<rparr>],
      pool = None,
      calls = [(EntityRecognizer, Predict), (EntityRecognizer, Predict),
               (RoleClassifier, Predict), (EntityResolver, Predict)]\<rparr>"

definition travel_result :: "string processed_query" where
  "travel_result =
     \<lparr>pq_query = ''Paris'', pq_entities = [2], pq_domain = None, pq_intent = None,
      pq_confidence = no_scores,
      nbest_transcripts_queries = Some [''Paris'', ''Pares''],
      nbest_transcripts_entities = Some [Plain [0], Plain [1]],
      nbest_aligned_entities = Some [[0, 1]]\<rparr>"

section \<open>Properties\<close>

subsection \<open>N-best entity alignment\<close>

lemma scan_refs_Some:
  "scan_refs deref e rs = Some j \<Longrightarrow>
   j < length rs \<and> aligns (deref e) (deref (rs ! j)) \<and>
   (\<forall>k<j. \<not> aligns (deref e) (deref (rs ! k)))"
proof (induction rs arbitrary: j)
  case Nil
  then show ?case by simp
next
  case (Cons r rs)
  show ?case
  proof (cases "aligns (deref e) (deref r)")
    case True
    with Cons.prems have "j = 0" by simp
    with True show ?thesis by simp
  next
    case False
    with Cons.prems obtain j' where j': "scan_refs deref e rs = Some j'" "j = Suc j'"
      by (cases "scan_refs deref e rs") simp_all
    from Cons.IH [OF j'(1)] have len: "j' < length rs"
      and hit: "aligns (deref e) (deref (rs ! j'))"
      and miss: "\<forall>k<j'. \<not> aligns (deref e) (deref (rs ! k))"
      by simp_all
    have "\<not> aligns (deref e) (deref ((r # rs) ! k))" if "k < j" for k
    proof (cases k)
      case 0
      with False show ?thesis by simp
    next
      case (Suc k')
      with that j'(2) have "k' < j'" by simp
      with miss Suc show ?thesis by simp
    qed
    with len hit j'(2) show ?thesis by simp
  qed
qed

lemma scan_refs_None: "scan_refs deref e rs = None \<longleftrightarrow> (\<forall>r\<in>set rs. \<not> aligns (deref e) (deref r))"
  by (induction rs) (auto split: option.splits)

lemma nth_drop_aligned:
  "j < length (drop p refs) \<Longrightarrow> drop p refs ! j = refs ! (p + j) \<and> p + j < length refs"
  by simp

lemma align_entity_no_match:
  assumes "\<forall>j. p \<le> j \<and> j < length refs \<longrightarrow> \<not> aligns (deref e) (deref (refs ! j))"
  shows "align_entity deref refs (p, al) e = (p, al)"
proof -
  have "\<forall>r\<in>set (drop p refs). \<not> aligns (deref e) (deref r)"
  proof
    fix r assume "r \<in> set (drop p refs)"
    then obtain j where j: "j < length (drop p refs)" "r = drop p refs ! j"
      by (auto simp: in_set_conv_nth)
    from nth_drop_aligned [OF j(1)] j(2) have "r = refs ! (p + j)" "p + j < length refs"
      by simp_all
    with assms show "\<not> aligns (deref e) (deref r)" by simp
  qed
  then have "scan_refs deref e (drop p refs) = None"
    by (simp add: scan_refs_None)
  then show ?thesis by simp
qed

lemma align_entity_first_match:
  assumes "p \<le> k" "k < length refs" "aligns (deref e) (deref (refs ! k))"
    and "\<forall>j. p \<le> j \<and> j < k \<longrightarrow> \<not> aligns (deref e) (deref (refs ! j))"
  shows "align_entity deref refs (p, al) e = (k, al[k := al ! k @ [e]])"
proof (cases "scan_refs deref e (drop p refs)")
  case None
  then have "\<forall>r\<in>set (drop p refs). \<not> aligns (deref e) (deref r)"
    by (simp add: scan_refs_None)
  moreover have "refs ! k \<in> set (drop p refs)"
  proof -
    have "k - p < length (drop p refs)" "drop p refs ! (k - p) = refs ! k"
      using assms(1,2) by simp_all
    then show ?thesis
      using nth_mem by metis
  qed
  ultimately show ?thesis
    using assms(3) by blast
next
  case (Some j)
  from scan_refs_Some [OF Some]
  have j: "j < length (drop p refs)" "aligns (deref e) (deref (drop p refs ! j))"
    "\<forall>i<j. \<not> aligns (deref e) (deref (drop p refs ! i))"
    by simp_all
  from j(1) have in_range: "p + j < length refs" by simp
  from j(2) j(1) have hit: "aligns (deref e) (deref (refs ! (p + j)))" by simp
  have "p + j = k"
  proof (rule ccontr)
    assume "p + j \<noteq> k"
    then consider "p + j < k" | "k < p + j" by linarith
    then show False
    proof cases
      case 1
      with assms(4) hit show False by simp
    next
      case 2
      with assms(1) have "k - p < j" by simp
      with j(3) have "\<not> aligns (deref e) (deref (drop p refs ! (k - p)))" by blast
      moreover have "drop p refs ! (k - p) = refs ! k"
        using assms(1,2) by simp
      ultimately show False
        using assms(3) by simp
    qed
  qed
  with Some show ?thesis by simp
qed

lemma grouped_init: "grouped deref C refs (map (\<lambda>e. [e]) refs)"
  by (simp add: grouped_def)

lemma grouped_align_entity:
  assumes "grouped deref C refs al" "e \<in> C"
  shows "grouped deref C refs (snd (align_entity deref refs (p, al) e))"
proof (cases "scan_refs deref e (drop p refs)")
  case None
  with assms show ?thesis by simp
next
  case (Some j)
  from scan_refs_Some [OF Some] have j: "p + j < length refs" "aligns (deref e) (deref (refs ! (p + j)))"
    by auto
  have "grouped deref C refs (al[p + j := al ! (p + j) @ [e]])"
    unfolding grouped_def
  proof (intro conjI allI impI)
    show "length (al[p + j := al ! (p + j) @ [e]]) = length refs"
      using assms(1) by (simp add: grouped_def)
  next
    fix i assume i: "i < length refs"
    show "al[p + j := al ! (p + j) @ [e]] ! i \<noteq> []"
      using assms(1) i by (cases "i = p + j") (auto simp: grouped_def)
    show "hd (al[p + j := al ! (p + j) @ [e]] ! i) = refs ! i"
      using assms(1) i by (cases "i = p + j") (auto simp: grouped_def)
    show "\<forall>c\<in>set (tl (al[p + j := al ! (p + j) @ [e]] ! i)). c \<in> C \<and> aligns (deref c) (deref (refs ! i))"
      using assms i j by (cases "i = p + j") (auto simp: grouped_def)
  qed
  with Some show ?thesis by simp
qed

lemma grouped_fold_entity:
  "grouped deref C refs al \<Longrightarrow> set es \<subseteq> C \<Longrightarrow>
   grouped deref C refs (snd (fold (\<lambda>e st. align_entity deref refs st e) es (p, al)))"
proof (induction es arbitrary: p al)
  case Nil
  then show ?case by simp
next
  case (Cons e es)
  obtain p' al' where st: "align_entity deref refs (p, al) e = (p', al')"
    by (cases "align_entity deref refs (p, al) e")
  from grouped_align_entity [OF Cons.prems(1), of e p] Cons.prems(2) st
  have "grouped deref C refs al'" by simp
  from Cons.IH [OF this, of p'] Cons.prems(2) st show ?case by simp
qed

lemma grouped_align_transcript:
  "grouped deref C refs al \<Longrightarrow> set es \<subseteq> C \<Longrightarrow> grouped deref C refs (align_transcript deref refs al es)"
  unfolding align_transcript_def by (rule grouped_fold_entity)

lemma grouped_fold_transcript:
  "grouped deref C refs al \<Longrightarrow> (\<Union>(set ` set rest)) \<subseteq> C \<Longrightarrow>
   grouped deref C refs (fold (\<lambda>entities_n al. align_transcript deref refs al entities_n) rest al)"
proof (induction rest arbitrary: al)
  case Nil
  then show ?case by simp
next
  case (Cons es rest)
  from Cons.prems have "grouped deref C refs (align_transcript deref refs al es)"
    by (intro grouped_align_transcript) auto
  from Cons.IH [OF this] Cons.prems(2) show ?case by simp
qed

lemma align_entities_grouped:
  "\<exists>groups. align_entities deref nb (refs # rest) = Inr groups \<and> grouped deref (\<Union>(set ` set rest)) refs groups"
  using grouped_fold_transcript [OF grouped_init, where rest = rest and C = "\<Union>(set ` set rest)" and refs = refs and deref = deref]
  by (simp add: align_entities_def grouped_init Let_def)

lemma placements_bounds:
  "(k, c) \<in> set (placements deref refs p es) \<Longrightarrow> p \<le> k \<and> k < length refs \<and> aligns (deref c) (deref (refs ! k))"
proof (induction es arbitrary: p)
  case Nil
  then show ?case by simp
next
  case (Cons e es)
  show ?case
  proof (cases "scan_refs deref e (drop p refs)")
    case None
    with Cons show ?thesis by simp
  next
    case (Some j)
    from scan_refs_Some [OF Some] have j: "p + j < length refs" "aligns (deref e) (deref (refs ! (p + j)))"
      by auto
    from Cons.prems Some have "(k, c) = (p + j, e) \<or> (k, c) \<in> set (placements deref refs (p + j) es)"
      by simp
    then show ?thesis
    proof
      assume "(k, c) = (p + j, e)"
      with j show ?thesis by simp
    next
      assume "(k, c) \<in> set (placements deref refs (p + j) es)"
      from Cons.IH [OF this] show ?thesis by simp
    qed
  qed
qed

lemma placements_sorted: "sorted (map fst (placements deref refs p es))"
proof (induction es arbitrary: p)
  case Nil
  then show ?case by simp
next
  case (Cons e es)
  show ?case
  proof (cases "scan_refs deref e (drop p refs)")
    case None
    with Cons.IH show ?thesis by simp
  next
    case (Some j)
    have "\<forall>k\<in>set (map fst (placements deref refs (p + j) es)). p + j \<le> k"
      using placements_bounds [of _ _ deref refs "p + j" es] by auto
    with Cons.IH [of "p + j"] Some show ?thesis by simp
  qed
qed

lemma placements_subseq: "subseq (map snd (placements deref refs p es)) es"
  by (induction es arbitrary: p) (auto split: option.splits)

lemma fold_align_entity_placements:
  "snd (fold (\<lambda>e st. align_entity deref refs st e) es (p, al)) = fold place (placements deref refs p es) al"
  by (induction es arbitrary: p al) (auto simp: place_def split: option.splits)

lemma align_transcript_placements:
  "align_transcript deref refs al es = fold place (placements deref refs 0 es) al"
  by (simp add: align_transcript_def fold_align_entity_placements)

text \<open>
  Claim C2. Alignment is monotonic. For every transcript after the reference, the groups
  are those obtained by appending its placed candidates, in their order in the transcript
  (\<open>placements\<close> is a subsequence of the transcript, paired with the group index of each
  append), and the sequence of these group indices is non-decreasing: no candidate is
  placed in a group before the group of an earlier candidate of the same transcript.
  Every index is an index of a reference group.
\<close>

theorem align_entities_monotonic:
  "align_entities deref nb (refs # rest) =
     Inr (if nb then fold (\<lambda>entities_n al. fold place (placements deref refs 0 entities_n) al) rest
                       (map (\<lambda>e. [e]) refs)
          else map (\<lambda>e. [e]) refs)
   \<and> (\<forall>entities_n\<in>set rest.
        sorted (map fst (placements deref refs 0 entities_n))
        \<and> subseq (map snd (placements deref refs 0 entities_n)) entities_n
        \<and> (\<forall>p\<in>set (placements deref refs 0 entities_n). fst p < length refs))"
proof -
  have "(\<lambda>entities_n al. align_transcript deref refs al entities_n) =
        (\<lambda>entities_n al. fold place (placements deref refs 0 entities_n) al)"
    by (simp add: align_transcript_placements)
  then have "align_entities deref nb (refs # rest) =
     Inr (if nb then fold (\<lambda>entities_n al. fold place (placements deref refs 0 entities_n) al) rest
                       (map (\<lambda>e. [e]) refs)
          else map (\<lambda>e. [e]) refs)"
    by (cases rest) (simp_all add: align_entities_def Let_def)
  moreover have "\<forall>p\<in>set (placements deref refs 0 entities_n). fst p < length refs" for entities_n
    using placements_bounds [of _ _ deref refs 0 entities_n] by auto
  ultimately show ?thesis
    by (simp add: placements_sorted placements_subseq)
qed

text \<open>
  Claim C1. For every non-empty list of per-transcript entity lists (\<open>refs # rest\<close>),
  \<open>align_entities\<close> returns one group per entity of transcript 0, in that order, each
  headed by its reference entity. Every later member of a group is a candidate of a
  later transcript that matches the group's reference entity (\<open>aligns\<close>: same entity type
  and positive overlap of the spans, a span of length zero widened by one). A candidate
  that matches no reference entity is in the tail of no group. The groups are built
  candidate by candidate by \<open>align_entity\<close>, and there the first match wins: the candidate
  is appended to the group of the first reference entity, from the transcript's pointer
  \<open>index_to_align\<close> onward, that it matches, and the pointer moves to that group; with
  no such reference entity the candidate is dropped.
\<close>

theorem align_entities_groups:
  "\<exists>groups. align_entities deref nb (refs # rest) = Inr groups
     \<and> length groups = length refs
     \<and> (\<forall>i<length refs. groups ! i \<noteq> [] \<and> hd (groups ! i) = refs ! i)
     \<and> (\<forall>i<length refs. \<forall>c\<in>set (tl (groups ! i)).
           (\<exists>entities_n\<in>set rest. c \<in> set entities_n) \<and> aligns (deref c) (deref (refs ! i)))
     \<and> (\<forall>c. (\<forall>r\<in>set refs. \<not> aligns (deref c) (deref r)) \<longrightarrow> (\<forall>g\<in>set groups. c \<notin> set (tl g)))
     \<and> groups =
         (if nb then fold (\<lambda>entities_n al.
                            snd (fold (\<lambda>e st. align_entity deref refs st e) entities_n (0, al)))
                       rest (map (\<lambda>e. [e]) refs)
          else map (\<lambda>e. [e]) refs)
     \<and> (\<forall>index_to_align al e.
           (\<forall>j. index_to_align \<le> j \<and> j < length refs \<longrightarrow>
                \<not> aligns (deref e) (deref (refs ! j))) \<longrightarrow>
           align_entity deref refs (index_to_align, al) e = (index_to_align, al))
     \<and> (\<forall>index_to_align al e k.
           index_to_align \<le> k \<and> k < length refs \<and> aligns (deref e) (deref (refs ! k)) \<and>
           (\<forall>j. index_to_align \<le> j \<and> j < k \<longrightarrow> \<not> aligns (deref e) (deref (refs ! j))) \<longrightarrow>
           align_entity deref refs (index_to_align, al) e = (k, al[k := al ! k @ [e]]))"
proof -
  from align_entities_grouped [of deref nb refs rest]
  obtain groups where g: "align_entities deref nb (refs # rest) = Inr groups"
    and inv: "grouped deref (\<Union>(set ` set rest)) refs groups"
    by blast
  from inv have len: "length groups = length refs"
    by (simp add: grouped_def)
  from inv have heads: "\<forall>i<length refs. groups ! i \<noteq> [] \<and> hd (groups ! i) = refs ! i"
    by (simp add: grouped_def)
  from inv have tails: "\<forall>i<length refs. \<forall>c\<in>set (tl (groups ! i)).
           (\<exists>entities_n\<in>set rest. c \<in> set entities_n) \<and> aligns (deref c) (deref (refs ! i))"
    by (simp add: grouped_def)
  have nomatch: "\<forall>c. (\<forall>r\<in>set refs. \<not> aligns (deref c) (deref r)) \<longrightarrow> (\<forall>g\<in>set groups. c \<notin> set (tl g))"
  proof (intro allI impI ballI notI)
    fix c g assume no: "\<forall>r\<in>set refs. \<not> aligns (deref c) (deref r)" and "g \<in> set groups" and c: "c \<in> set (tl g)"
    then obtain i where i: "i < length groups" "g = groups ! i"
      by (auto simp: in_set_conv_nth)
    with tails len c have "aligns (deref c) (deref (refs ! i))" by auto
    with no i len show False by auto
  qed
  have "align_entities deref nb (refs # rest) =
         Inr (if nb then fold (\<lambda>entities_n al.
                            snd (fold (\<lambda>e st. align_entity deref refs st e) entities_n (0, al)))
                       rest (map (\<lambda>e. [e]) refs)
              else map (\<lambda>e. [e]) refs)"
    by (cases rest) (simp_all add: align_entities_def Let_def align_transcript_def)
  with g have run: "groups =
         (if nb then fold (\<lambda>entities_n al.
                            snd (fold (\<lambda>e st. align_entity deref refs st e) entities_n (0, al)))
                       rest (map (\<lambda>e. [e]) refs)
          else map (\<lambda>e. [e]) refs)"
    by simp
  have miss: "\<forall>index_to_align al e.
           (\<forall>j. index_to_align \<le> j \<and> j < length refs \<longrightarrow>
                \<not> aligns (deref e) (deref (refs ! j))) \<longrightarrow>
           align_entity deref refs (index_to_align, al) e = (index_to_align, al)"
    by (intro allI impI) (rule align_entity_no_match, assumption)
  have hit: "\<forall>index_to_align al e k.
           index_to_align \<le> k \<and> k < length refs \<and> aligns (deref e) (deref (refs ! k)) \<and>
           (\<forall>j. index_to_align \<le> j \<and> j < k \<longrightarrow> \<not> aligns (deref e) (deref (refs ! j))) \<longrightarrow>
           align_entity deref refs (index_to_align, al) e = (k, al[k := al ! k @ [e]])"
    by (intro allI impI, elim conjE) (rule align_entity_first_match, assumption+)
  from g len heads tails nomatch run miss hit show ?thesis
    by - (rule exI [of _ groups], intro conjI, assumption+)
qed

theorem align_entities_groups_witness:
  "align_entities (\<lambda>e. e) True
     [[recognized ''number'' ''2'' 5 6, recognized ''city'' ''paris'' 10 15],
      [recognized ''number'' ''2'' 5 5, recognized ''city'' ''paris'' 12 20,
       recognized ''number'' ''7'' 30 31],
      [recognized ''city'' ''to'' 5 6]]
   = Inr [[recognized ''number'' ''2'' 5 6, recognized ''number'' ''2'' 5 5],
          [recognized ''city'' ''paris'' 10 15, recognized ''city'' ''paris'' 12 20]]"
proof -
  let ?refs = "[recognized ''number'' ''2'' 5 6, recognized ''city'' ''paris'' 10 15]"
  let ?rest = "[[recognized ''number'' ''2'' 5 5, recognized ''city'' ''paris'' 12 20,
       recognized ''number'' ''7'' 30 31],
      [recognized ''city'' ''to'' 5 6]]"
  from align_entities_groups [of "\<lambda>e. e" True ?refs ?rest]
  obtain groups where g: "align_entities (\<lambda>e. e) True (?refs # ?rest) = Inr groups"
    and run: "groups = (if True then fold (\<lambda>entities_n al.
                            snd (fold (\<lambda>e st. align_entity (\<lambda>e. e) ?refs st e) entities_n (0, al)))
                       ?rest (map (\<lambda>e. [e]) ?refs)
          else map (\<lambda>e. [e]) ?refs)"
    by (elim exE conjE) (rule that, assumption+)
  from run have "groups = [[recognized ''number'' ''2'' 5 6, recognized ''number'' ''2'' 5 5],
          [recognized ''city'' ''paris'' 10 15, recognized ''city'' ''paris'' 12 20]]"
    by (simp add: aligns_def recognized_def)
  with g show ?thesis by simp
qed

theorem align_entities_monotonic_witness:
  "align_entities (\<lambda>e. e) True
     [[recognized ''t'' ''a'' 0 5, recognized ''t'' ''b'' 10 15],
      [recognized ''t'' ''a'' 0 3, recognized ''t'' ''b'' 11 14, recognized ''t'' ''a'' 1 4]]
   = Inr [[recognized ''t'' ''a'' 0 5, recognized ''t'' ''a'' 0 3],
          [recognized ''t'' ''b'' 10 15, recognized ''t'' ''b'' 11 14]]
   \<and> map fst (placements (\<lambda>e. e) [recognized ''t'' ''a'' 0 5, recognized ''t'' ''b'' 10 15] 0
        [recognized ''t'' ''a'' 0 3, recognized ''t'' ''b'' 11 14, recognized ''t'' ''a'' 1 4])
     = [0, 1]
   \<and> sorted [0, 1 :: nat]"
proof -
  let ?refs = "[recognized ''t'' ''a'' 0 5, recognized ''t'' ''b'' 10 15]"
  let ?cands = "[recognized ''t'' ''a'' 0 3, recognized ''t'' ''b'' 11 14, recognized ''t'' ''a'' 1 4]"
  have p: "placements (\<lambda>e. e) ?refs 0 ?cands =
      [(0, recognized ''t'' ''a'' 0 3), (1, recognized ''t'' ''b'' 11 14)]"
    by (simp add: aligns_def recognized_def)
  from align_entities_monotonic [of "\<lambda>e. e" True ?refs "[?cands]"]
  have run: "align_entities (\<lambda>e. e) True [?refs, ?cands] =
      Inr (fold place (placements (\<lambda>e. e) ?refs 0 ?cands) (map (\<lambda>e. [e]) ?refs))"
    and sorted: "sorted (map fst (placements (\<lambda>e. e) ?refs 0 ?cands))"
    by simp_all
  from run sorted show ?thesis
    unfolding p by (simp add: place_def)
qed

subsection \<open>Label selection at the domain and intent tiers\<close>

lemma first_allowed_Some:
  "first_allowed allowed ranked = Some l \<Longrightarrow> first_ranked_in allowed ranked l"
proof (induction ranked)
  case Nil
  then show ?case by simp
next
  case (Cons p ranked)
  obtain l' s where p: "p = (l', s)" by (cases p)
  show ?case
  proof (cases "l' \<in> set allowed")
    case True
    with Cons.prems p have "l = l'" by simp
    with True p show ?thesis
      unfolding first_ranked_in_def by (intro exI [of _ 0]) simp
  next
    case False
    with Cons.prems p have "first_allowed allowed ranked = Some l" by simp
    from Cons.IH [OF this] obtain i where i: "i < length ranked" "fst (ranked ! i) = l"
      "l \<in> set allowed" "\<forall>j<i. fst (ranked ! j) \<notin> set allowed"
      unfolding first_ranked_in_def by blast
    have "\<forall>j<Suc i. fst ((p # ranked) ! j) \<notin> set allowed"
      using i(4) False p by (auto simp: nth_Cons split: nat.splits)
    with i(1,2,3) show ?thesis
      unfolding first_ranked_in_def by (intro exI [of _ "Suc i"]) simp
  qed
qed

lemma first_allowed_None:
  "first_allowed allowed ranked = None \<longleftrightarrow> (\<forall>p\<in>set ranked. fst p \<notin> set allowed)"
  by (induction allowed ranked rule: first_allowed.induct) auto

lemma first_ranked_in_unique:
  "first_ranked_in allowed ranked l \<Longrightarrow> first_ranked_in allowed ranked l' \<Longrightarrow> l = l'"
  unfolding first_ranked_in_def by (metis linorder_neqE_nat)

lemma process_domain_restricted:
  assumes "length domains > 1" "length allowed \<ge> 2"
  shows "process_domain domains clf q (Some allowed) d verbose =
     (case first_allowed allowed (predict_proba clf q d) of
        Some l \<Rightarrow> (Inr (l, if verbose then Some (predict_proba clf q d) else None), [PredictProba])
      | None \<Rightarrow> (Inl (AllowedNlpClassesKeyError
                        ''Could not find user inputted domain in NLP hierarchy''), [PredictProba]))"
proof -
  from assms(2) have "allowed \<noteq> []" "length allowed \<noteq> 1" by auto
  with assms(1) show ?thesis
    by (simp add: process_domain_def Let_def)
qed

lemma select_intent_restricted:
  assumes "length intents > 1" "length allowed \<ge> 2"
  shows "select_intent intents clf q (Some allowed) d verbose =
     (case first_allowed allowed (predict_proba clf q d) of
        Some l \<Rightarrow>
          (if l = [] then (Inl (AllowedNlpClassesKeyError
                        ''Could not find user inputted intent in NLP hierarchy''), [PredictProba])
           else (Inr (l, if verbose then Some (predict_proba clf q d) else None), [PredictProba]))
      | None \<Rightarrow> (Inl (AllowedNlpClassesKeyError
                        ''Could not find user inputted intent in NLP hierarchy''), [PredictProba]))"
proof -
  from assms(2) have "allowed \<noteq> []" "length allowed \<noteq> 1" by auto
  with assms(1) show ?thesis
    by (simp add: select_intent_def Let_def split: option.splits)
qed

lemma first_ranked_in_iff:
  "first_ranked_in allowed ranked l \<longleftrightarrow> first_allowed allowed ranked = Some l"
proof
  assume fr: "first_ranked_in allowed ranked l"
  show "first_allowed allowed ranked = Some l"
  proof (cases "first_allowed allowed ranked")
    case None
    then have "\<forall>p\<in>set ranked. fst p \<notin> set allowed"
      by (simp add: first_allowed_None)
    moreover from fr obtain i where "i < length ranked" "fst (ranked ! i) \<in> set allowed"
      unfolding first_ranked_in_def by blast
    ultimately show ?thesis
      using nth_mem by blast
  next
    case (Some l')
    from first_allowed_Some [OF this] fr have "l = l'"
      by (rule first_ranked_in_unique [symmetric])
    with Some show ?thesis by simp
  qed
next
  assume "first_allowed allowed ranked = Some l"
  then show "first_ranked_in allowed ranked l" by (rule first_allowed_Some)
qed

lemma first_ranked_in_nonempty:
  assumes "first_allowed allowed ranked = Some l" "\<forall>p\<in>set ranked. fst p \<noteq> []"
  shows "l \<noteq> []"
proof -
  from first_allowed_Some [OF assms(1)] obtain i where "i < length ranked" "fst (ranked ! i) = l"
    unfolding first_ranked_in_def by blast
  with assms(2) show ?thesis
    using nth_mem by blast
qed

text \<open>
  Claim C3, as amended. At a tier with more than one child label, for every query and every
  restriction with at least two candidate labels: at the domain tier the selection asks
  the classifier for its ranked list once and returns the first label of that list that
  belongs to the restriction set (with the ranked list as confidences when they were
  requested), and it raises \<open>AllowedNlpClassesKeyError\<close> if and only if no label of the
  ranked list belongs to the restriction set; the intent tier does the same whenever no
  label of the ranked list is the empty string.
\<close>

theorem restricted_selection:
  assumes many: "length labels > 1"
    and allowed: "length allowed \<ge> 2"
  shows "(\<forall>l. first_ranked_in allowed (predict_proba clf q d) l \<longrightarrow>
            process_domain labels clf q (Some allowed) d verbose =
              (Inr (l, if verbose then Some (predict_proba clf q d) else None), [PredictProba]))
       \<and> ((\<forall>p\<in>set (predict_proba clf q d). fst p \<notin> set allowed) \<longrightarrow>
            process_domain labels clf q (Some allowed) d verbose =
              (Inl (AllowedNlpClassesKeyError
                     ''Could not find user inputted domain in NLP hierarchy''), [PredictProba]))
       \<and> ((\<exists>e. fst (process_domain labels clf q (Some allowed) d verbose) = Inl e)
            \<longleftrightarrow> (\<forall>p\<in>set (predict_proba clf q d). fst p \<notin> set allowed))
       \<and> ((\<forall>p\<in>set (predict_proba clf q d). fst p \<noteq> []) \<longrightarrow>
            (\<forall>l. first_ranked_in allowed (predict_proba clf q d) l \<longrightarrow>
               select_intent labels clf q (Some allowed) d verbose =
                 (Inr (l, if verbose then Some (predict_proba clf q d) else None),
                  [PredictProba]))
            \<and> ((\<forall>p\<in>set (predict_proba clf q d). fst p \<notin> set allowed) \<longrightarrow>
               select_intent labels clf q (Some allowed) d verbose =
                 (Inl (AllowedNlpClassesKeyError
                        ''Could not find user inputted intent in NLP hierarchy''),
                  [PredictProba]))
            \<and> ((\<exists>e. fst (select_intent labels clf q (Some allowed) d verbose) = Inl e)
               \<longleftrightarrow> (\<forall>p\<in>set (predict_proba clf q d). fst p \<notin> set allowed)))"
proof -
  let ?ranked = "predict_proba clf q d"
  note dom = process_domain_restricted [OF many allowed, of clf q d verbose]
  note int = select_intent_restricted [OF many allowed, of clf q d verbose]
  have d1: "\<forall>l. first_ranked_in allowed ?ranked l \<longrightarrow>
            process_domain labels clf q (Some allowed) d verbose =
              (Inr (l, if verbose then Some ?ranked else None), [PredictProba])"
    by (simp add: first_ranked_in_iff dom)
  have d2: "(\<forall>p\<in>set ?ranked. fst p \<notin> set allowed) \<longrightarrow>
            process_domain labels clf q (Some allowed) d verbose =
              (Inl (AllowedNlpClassesKeyError
                     ''Could not find user inputted domain in NLP hierarchy''), [PredictProba])"
    by (simp add: first_allowed_None [symmetric] dom)
  have d3: "(\<exists>e. fst (process_domain labels clf q (Some allowed) d verbose) = Inl e)
            \<longleftrightarrow> (\<forall>p\<in>set ?ranked. fst p \<notin> set allowed)"
    unfolding first_allowed_None [symmetric] dom
    by (cases "first_allowed allowed ?ranked") simp_all
  have i: "(\<forall>l. first_ranked_in allowed ?ranked l \<longrightarrow>
               select_intent labels clf q (Some allowed) d verbose =
                 (Inr (l, if verbose then Some ?ranked else None), [PredictProba]))
            \<and> ((\<forall>p\<in>set ?ranked. fst p \<notin> set allowed) \<longrightarrow>
               select_intent labels clf q (Some allowed) d verbose =
                 (Inl (AllowedNlpClassesKeyError
                        ''Could not find user inputted intent in NLP hierarchy''),
                  [PredictProba]))
            \<and> ((\<exists>e. fst (select_intent labels clf q (Some allowed) d verbose) = Inl e)
               \<longleftrightarrow> (\<forall>p\<in>set ?ranked. fst p \<notin> set allowed))"
    if ne: "\<forall>p\<in>set ?ranked. fst p \<noteq> []"
  proof (cases "first_allowed allowed ?ranked")
    case None
    then have no: "\<forall>p\<in>set ?ranked. fst p \<notin> set allowed"
      by (simp add: first_allowed_None)
    from None have "\<And>l. \<not> first_ranked_in allowed ?ranked l"
      by (simp add: first_ranked_in_iff)
    with None no show ?thesis
      by (simp add: int)
  next
    case (Some l)
    from first_ranked_in_nonempty [OF Some ne] have l: "l \<noteq> []" .
    from Some have yes: "\<not> (\<forall>p\<in>set ?ranked. fst p \<notin> set allowed)"
      by (simp add: first_allowed_None [symmetric])
    from Some l yes show ?thesis
      by (simp add: int first_ranked_in_iff)
  qed
  from d1 d2 d3 i show ?thesis by blast
qed

theorem restricted_selection_witness:
  "process_domain [''a'', ''b'', ''c''] ranks_a_b () (Some [''b'', ''c'']) () True =
     (Inr (''b'', Some [(''a'', 3 / 4), (''b'', 1 / 4)]), [PredictProba])
   \<and> select_intent [''a'', ''b'', ''c''] ranks_a_b () (Some [''b'', ''c'']) () False =
     (Inr (''b'', None), [PredictProba])
   \<and> process_domain [''a'', ''b'', ''c''] ranks_a_b () (Some [''c'', ''x'']) () True =
     (Inl (AllowedNlpClassesKeyError
            ''Could not find user inputted domain in NLP hierarchy''), [PredictProba])"
proof -
  have fr: "first_ranked_in [''b'', ''c''] (predict_proba ranks_a_b () ()) ''b''"
    unfolding first_ranked_in_def by (intro exI [of _ 1]) (simp add: ranks_a_b_def)
  have ne: "\<forall>p\<in>set (predict_proba ranks_a_b () ()). fst p \<noteq> []"
    by (simp add: ranks_a_b_def)
  have no: "\<forall>p\<in>set (predict_proba ranks_a_b () ()). fst p \<notin> set [''c'', ''x'']"
    by (simp add: ranks_a_b_def)
  have c: "length [''a'', ''b'', ''c''] > 1" and a: "length [''b'', ''c''] \<ge> 2"
    and a': "length [''c'', ''x''] \<ge> 2"
    by simp_all
  from restricted_selection [OF c a, of ranks_a_b "()" "()" True] fr
  have 1: "process_domain [''a'', ''b'', ''c''] ranks_a_b () (Some [''b'', ''c'']) () True =
     (Inr (''b'', Some (predict_proba ranks_a_b () ())), [PredictProba])"
    by simp
  from restricted_selection [OF c a, of ranks_a_b "()" "()" False] fr ne
  have 2: "select_intent [''a'', ''b'', ''c''] ranks_a_b () (Some [''b'', ''c'']) () False =
     (Inr (''b'', None), [PredictProba])"
    by simp
  from restricted_selection [OF c a', of ranks_a_b "()" "()" True] no
  have 3: "process_domain [''a'', ''b'', ''c''] ranks_a_b () (Some [''c'', ''x'']) () True =
     (Inl (AllowedNlpClassesKeyError
            ''Could not find user inputted domain in NLP hierarchy''), [PredictProba])"
    by blast
  from 1 2 3 show ?thesis by (simp add: ranks_a_b_def)
qed

text \<open>
  The claim as stated fails at a tier with a single child: with the only domain (or
  intent) \<^verbatim>\<open>d\<close> and the restriction \<^verbatim>\<open>{a, b}\<close>, no label the classifier ranks is in
  the restriction set, and the selection returns \<^verbatim>\<open>d\<close> without raising and without
  asking the classifier.
\<close>

theorem restricted_selection_counterexample:
  "length [''a'', ''b''] \<ge> 2
   \<and> set (map fst (predict_proba knows_d () ())) \<inter> set [''a'', ''b''] = {}
   \<and> process_domain [''d''] knows_d () (Some [''a'', ''b'']) () False = (Inr (''d'', None), [])
   \<and> select_intent [''d''] knows_d () (Some [''a'', ''b'']) () False = (Inr (''d'', None), [])"
  by (simp add: process_domain_def select_intent_def knows_d_def)

text \<open>
  Claim C4, as amended. For every query, a tier with exactly one child label returns that
  label without any call to its classifier, whatever the restriction, with confidence 1.0
  when probabilities were requested and no confidences otherwise; and at a tier with more
  than one child label, a restriction with exactly one candidate label returns that
  label, again without any call to the classifier, and with confidence 1.0 when
  probabilities were requested.
\<close>

theorem single_label_selection:
  "process_domain [l] clf q allowed d verbose =
     (Inr (l, if verbose then Some [(l, 1)] else None), [])
   \<and> select_intent [l] clf q allowed d verbose =
     (Inr (l, if verbose then Some [(l, 1)] else None), [])
   \<and> (length labels > 1 \<longrightarrow>
        process_domain labels clf q (Some [l]) d verbose =
          (Inr (l, if verbose then Some [(l, 1)] else None), [])
        \<and> select_intent labels clf q (Some [l]) d verbose =
          (Inr (l, if verbose then Some [(l, 1)] else None), []))"
  by (simp add: process_domain_def select_intent_def)

theorem single_label_selection_witness:
  "process_domain [''smart_home''] ranks_a_b () None () True =
     (Inr (''smart_home'', Some [(''smart_home'', 1)]), [])
   \<and> select_intent [''close_door'', ''open_door''] ranks_a_b () (Some [''close_door'']) () True =
     (Inr (''close_door'', Some [(''close_door'', 1)]), [])
   \<and> select_intent [''close_door'', ''open_door''] ranks_a_b () (Some [''close_door'']) () False =
     (Inr (''close_door'', None), [])"
  using single_label_selection [of "''smart_home''" ranks_a_b "()" None "()" True
      "[''close_door'', ''open_door'']"]
    single_label_selection [of "''close_door''" ranks_a_b "()" None "()" True
      "[''close_door'', ''open_door'']"]
    single_label_selection [of "''close_door''" ranks_a_b "()" None "()" False
      "[''close_door'', ''open_door'']"]
  by simp

text \<open>
  The second half of the claim as stated fails at a tier with a single child: there the
  child is returned, not the only label of the restriction.
\<close>

theorem single_label_selection_counterexample:
  "length [''x''] = 1
   \<and> process_domain [''d''] knows_d () (Some [''x'']) () True =
       (Inr (''d'', Some [(''d'', 1)]), [])
   \<and> select_intent [''d''] knows_d () (Some [''x'']) () True =
       (Inr (''d'', Some [(''d'', 1)]), [])
   \<and> ''d'' \<noteq> ''x''"
  by (simp add: process_domain_def select_intent_def)

subsection \<open>Validation of the allowed intents\<close>

lemma split_on_nonempty: "split_on sep s \<noteq> []"
  by (induction s) (auto split: list.splits)

lemma split_on_no_sep: "sep \<notin> set s \<Longrightarrow> split_on sep s = [s]"
  by (induction s) auto

lemma split_on_append:
  "sep \<notin> set a \<Longrightarrow> split_on sep (a @ sep # b) = a # split_on sep b"
  by (induction a) auto

lemma length_split_on: "length (split_on sep s) = Suc (count_list s sep)"
proof (induction s)
  case Nil
  then show ?case by simp
next
  case (Cons c cs)
  then show ?case
    by (cases "split_on sep cs") (auto simp: split_on_nonempty)
qed

lemma split_label_path: "dot_free p \<Longrightarrow> split_on (CHR ''.'') (label_path p) = [fst p, snd p]"
  by (simp add: dot_free_def label_path_def split_on_append split_on_no_sep)

lemma fold_insert_set: "fold insert xs s = set xs \<union> s"
  by (induction xs arbitrary: s) auto

lemma extract_step_malformed:
  "count_list s (CHR ''.'') \<noteq> 1 \<Longrightarrow> extract_step domains nlp s = Inl ValueError"
proof -
  assume "count_list s (CHR ''.'') \<noteq> 1"
  then have "length (split_on (CHR ''.'') s) \<noteq> 2"
    by (simp add: length_split_on)
  then show ?thesis
    unfolding extract_step_def
    by (auto split: list.splits)
qed

lemma extract_step_path:
  assumes "dot_free p"
  shows "extract_step domains nlp (label_path p) =
     (if known domains p
      then Inr (nlp(fst p \<mapsto> expand domains p \<union> (case nlp (fst p) of None \<Rightarrow> {} | Some s \<Rightarrow> s)))
      else Inl (offending domains p))"
  unfolding extract_step_def split_label_path [OF assms]
  by (auto simp: known_def expand_def offending_def fold_insert_set split: option.splits)

lemma extract_loop_paths:
  assumes "\<forall>p\<in>set paths. dot_free p"
  shows "extract_loop domains nlp (map label_path paths) =
     (case find (\<lambda>p. \<not> known domains p) paths of
        Some p \<Rightarrow> Inl (offending domains p)
      | None \<Rightarrow>
          Inr (\<lambda>domain. if domain \<in> fst ` set paths
                 then Some ((\<Union>p \<in> {p \<in> set paths. fst p = domain}. expand domains p)
                            \<union> (case nlp domain of None \<Rightarrow> {} | Some s \<Rightarrow> s))
                 else nlp domain))"
  using assms
proof (induction paths arbitrary: nlp)
  case Nil
  then show ?case by simp
next
  case (Cons p paths)
  from Cons.prems have p: "dot_free p" and rest: "\<forall>p\<in>set paths. dot_free p"
    by simp_all
  show ?case
  proof (cases "known domains p")
    case False
    with p show ?thesis
      by (simp add: extract_step_path)
  next
    case True
    let ?nlp' = "nlp(fst p \<mapsto> expand domains p \<union> (case nlp (fst p) of None \<Rightarrow> {} | Some s \<Rightarrow> s))"
    have step: "extract_loop domains nlp (map label_path (p # paths)) =
          extract_loop domains ?nlp' (map label_path paths)"
      using True p by (simp add: extract_step_path)
    show ?thesis
    proof (cases "find (\<lambda>p. \<not> known domains p) paths")
      case (Some q)
      with True show ?thesis
        unfolding step Cons.IH [OF rest] by simp
    next
      case None
      have "(\<lambda>domain. if domain \<in> fst ` set paths
                 then Some ((\<Union>p \<in> {p \<in> set paths. fst p = domain}. expand domains p)
                            \<union> (case ?nlp' domain of None \<Rightarrow> {} | Some s \<Rightarrow> s))
                 else ?nlp' domain) =
            (\<lambda>domain. if domain \<in> fst ` set (p # paths)
                 then Some ((\<Union>p \<in> {q \<in> set (p # paths). fst q = domain}. expand domains p)
                            \<union> (case nlp domain of None \<Rightarrow> {} | Some s \<Rightarrow> s))
                 else nlp domain)"
      proof (rule ext)
        fix domain
        show "(if domain \<in> fst ` set paths
                 then Some ((\<Union>p \<in> {p \<in> set paths. fst p = domain}. expand domains p)
                            \<union> (case ?nlp' domain of None \<Rightarrow> {} | Some s \<Rightarrow> s))
                 else ?nlp' domain) =
            (if domain \<in> fst ` set (p # paths)
                 then Some ((\<Union>p \<in> {q \<in> set (p # paths). fst q = domain}. expand domains p)
                            \<union> (case nlp domain of None \<Rightarrow> {} | Some s \<Rightarrow> s))
                 else nlp domain)"
        proof (cases "domain = fst p")
          case True
          let ?A = "\<Union>q \<in> {q \<in> set paths. fst q = domain}. expand domains q"
          let ?c = "case nlp domain of None \<Rightarrow> {} | Some s \<Rightarrow> s"
          have split: "{q \<in> set (p # paths). fst q = domain} = insert p {q \<in> set paths. fst q = domain}"
            using True by auto
          have new: "?nlp' domain = Some (expand domains p \<union> ?c)"
            using True by simp
          have rhs: "(\<Union>q \<in> {q \<in> set (p # paths). fst q = domain}. expand domains q) \<union> ?c
                = ?A \<union> (expand domains p \<union> ?c)"
            unfolding split by auto
          have empty: "?A = {}" if "domain \<notin> fst ` set paths"
            using that by force
          have mem: "domain \<in> fst ` set (p # paths)"
            using True by simp
          show ?thesis
          proof (cases "domain \<in> fst ` set paths")
            case True
            then show ?thesis
              unfolding new rhs using mem by simp
          next
            case False
            then show ?thesis
              unfolding new rhs empty [OF False] using mem by simp
          qed
        next
          case False
          then have "{q \<in> set (p # paths). fst q = domain} = {q \<in> set paths. fst q = domain}"
            by auto
          with False show ?thesis by auto
        qed
      qed
      with None True show ?thesis
        unfolding step Cons.IH [OF rest] by simp
    qed
  qed
qed

text \<open>
  Claim C7. For every list of \<^verbatim>\<open>toplabel.sublabel\<close> strings (the label paths of pairs
  of dot-free labels), \<open>extract_allowed_intents\<close> raises \<open>AllowedNlpClassesKeyError\<close> for the
  first path that is not known, naming its top label when that is not a domain of the
  hierarchy and its sublabel otherwise (a sublabel other than \<^verbatim>\<open>*\<close> that is not an intent
  of the domain); when every path is known it returns the mapping from each referenced
  domain to the set of its referenced intents, \<^verbatim>\<open>*\<close> expanded to all the intents of the
  domain.
\<close>

theorem extract_allowed_intents_paths:
  assumes "\<forall>p\<in>set paths. dot_free p"
  shows "extract_allowed_intents domains (map label_path paths) =
     (case find (\<lambda>p. \<not> known domains p) paths of
        Some p \<Rightarrow> Inl (offending domains p)
      | None \<Rightarrow> Inr (referenced domains paths))"
  unfolding extract_allowed_intents_def extract_loop_paths [OF assms] referenced_def
  by (simp split: option.splits cong: if_cong)

lemma extract_loop_append:
  "extract_loop domains nlp pre = Inr nlp' \<Longrightarrow>
   extract_loop domains nlp (pre @ post) = extract_loop domains nlp' post"
  by (induction pre arbitrary: nlp) (auto split: sum.splits)

lemma extract_loop_prefix_error:
  "extract_loop domains nlp pre = Inl e \<Longrightarrow> extract_loop domains nlp (pre @ post) = Inl e"
  by (induction pre arbitrary: nlp) (auto split: sum.splits)

text \<open>
  Claim C10, as amended. A string of the list that does not contain exactly one dot makes
  the tuple assignment of the loop body raise \<open>ValueError\<close>, whatever the hierarchy and
  the mapping built so far. The loop stops at the first entry it rejects, so
  \<open>extract_allowed_intents\<close> raises \<open>ValueError\<close>, not \<open>AllowedNlpClassesKeyError\<close>, when
  such a string is the first entry of the list or comes after entries that were all
  accepted; when an entry before it is rejected, the error of that entry is raised
  instead.
\<close>

theorem extract_allowed_intents_malformed:
  assumes "count_list s (CHR ''.'') \<noteq> 1"
  shows "extract_step domains nlp_components s = Inl ValueError
       \<and> extract_allowed_intents domains (s # post) = Inl ValueError
       \<and> (\<forall>accepted. extract_allowed_intents domains pre = Inr accepted \<longrightarrow>
            extract_allowed_intents domains (pre @ s # post) = Inl ValueError)
       \<and> (\<forall>e. extract_allowed_intents domains pre = Inl e \<longrightarrow>
            extract_allowed_intents domains (pre @ s # post) = Inl e)"
  using extract_step_malformed [OF assms]
  by (simp add: extract_allowed_intents_def extract_loop_append extract_loop_prefix_error)

theorem extract_allowed_intents_paths_witness:
  "extract_allowed_intents smart_home [''smart_home.close_door'', ''smart_home.*''] =
     Inr [''smart_home'' \<mapsto> {''close_door'', ''open_door''}]
   \<and> extract_allowed_intents smart_home [''smart_home.close_door'', ''smart_home.lock''] =
     Inl (AllowedNlpClassesKeyError ''Intent: lock is not in the NLP component hierarchy'')
   \<and> extract_allowed_intents smart_home [''kitchen.*''] =
     Inl (AllowedNlpClassesKeyError ''Domain: kitchen is not in the NLP component hierarchy'')"
proof -
  let ?ok = "[(''smart_home'', ''close_door''), (''smart_home'', ''*'')]"
  let ?bad = "[(''smart_home'', ''close_door''), (''smart_home'', ''lock'')]"
  let ?worse = "[(''kitchen'', ''*'')]"
  have free: "\<forall>p\<in>set ?ok. dot_free p" "\<forall>p\<in>set ?bad. dot_free p" "\<forall>p\<in>set ?worse. dot_free p"
    by (simp_all add: dot_free_def)
  have "referenced smart_home ?ok = [''smart_home'' \<mapsto> {''close_door'', ''open_door''}]"
  proof (rule ext)
    fix d
    have both: "{p. (p = (''smart_home'', ''close_door'') \<or> p = (''smart_home'', ''*'')) \<and>
                 fst p = ''smart_home''} = {(''smart_home'', ''close_door''), (''smart_home'', ''*'')}"
      by auto
    show "referenced smart_home ?ok d = [''smart_home'' \<mapsto> {''close_door'', ''open_door''}] d"
    proof (cases "d = ''smart_home''")
      case True
      then show ?thesis
        by (simp add: referenced_def both) (simp add: expand_def smart_home_def insert_commute)
    next
      case False
      then show ?thesis
        by (simp add: referenced_def)
    qed
  qed
  with extract_allowed_intents_paths [OF free(1), of smart_home]
  have 1: "extract_allowed_intents smart_home (map label_path ?ok) =
     Inr [''smart_home'' \<mapsto> {''close_door'', ''open_door''}]"
    by (simp add: known_def smart_home_def)
  from extract_allowed_intents_paths [OF free(2), of smart_home]
  have 2: "extract_allowed_intents smart_home (map label_path ?bad) =
     Inl (AllowedNlpClassesKeyError ''Intent: lock is not in the NLP component hierarchy'')"
    by (simp add: known_def offending_def smart_home_def)
  from extract_allowed_intents_paths [OF free(3), of smart_home]
  have 3: "extract_allowed_intents smart_home (map label_path ?worse) =
     Inl (AllowedNlpClassesKeyError ''Domain: kitchen is not in the NLP component hierarchy'')"
    by (simp add: known_def offending_def smart_home_def)
  from 1 2 3 show ?thesis
    by (simp add: label_path_def)
qed

theorem extract_allowed_intents_malformed_witness:
  "extract_allowed_intents smart_home [''smart_home.open_door'', ''smart_home'', ''x.y''] =
     Inl ValueError
   \<and> extract_allowed_intents smart_home [''a.b.c''] = Inl ValueError
   \<and> extract_allowed_intents smart_home [''kitchen.x'', ''abc'', ''x.y''] =
     Inl (AllowedNlpClassesKeyError ''Domain: kitchen is not in the NLP component hierarchy'')"
proof -
  have pre: "extract_allowed_intents smart_home [''smart_home.open_door''] =
      Inr [''smart_home'' \<mapsto> {''open_door''}]"
    by (simp add: extract_allowed_intents_def extract_step_def smart_home_def)
  have rejected: "extract_allowed_intents smart_home [''kitchen.x''] =
      Inl (AllowedNlpClassesKeyError ''Domain: kitchen is not in the NLP component hierarchy'')"
    by (simp add: extract_allowed_intents_def extract_step_def smart_home_def)
  have m1: "count_list ''smart_home'' (CHR ''.'') \<noteq> 1" and m2: "count_list ''a.b.c'' (CHR ''.'') \<noteq> 1"
    and m3: "count_list ''abc'' (CHR ''.'') \<noteq> 1"
    by simp_all
  from extract_allowed_intents_malformed [OF m1, of smart_home _ "[''x.y'']" "[''smart_home.open_door'']"] pre
  have 1: "extract_allowed_intents smart_home ([''smart_home.open_door''] @ ''smart_home'' # [''x.y'']) =
     Inl ValueError"
    by blast
  from extract_allowed_intents_malformed [OF m2, of smart_home _ "[]" "[]"]
  have 2: "extract_allowed_intents smart_home [''a.b.c''] = Inl ValueError"
    by blast
  from extract_allowed_intents_malformed [OF m3, of smart_home _ "[''x.y'']" "[''kitchen.x'']"] rejected
  have 3: "extract_allowed_intents smart_home ([''kitchen.x''] @ ''abc'' # [''x.y'']) =
     Inl (AllowedNlpClassesKeyError ''Domain: kitchen is not in the NLP component hierarchy'')"
    by blast
  from 1 2 3 show ?thesis by simp
qed

text \<open>
  The claim as stated fails for a malformed string behind a rejected entry: \<^verbatim>\<open>abc\<close> has
  no dot, and the list raises the error of \<^verbatim>\<open>kitchen.x\<close>, an unknown domain, not
  \<open>ValueError\<close>.
\<close>

theorem extract_allowed_intents_malformed_counterexample:
  "count_list ''abc'' (CHR ''.'') \<noteq> 1
   \<and> extract_allowed_intents smart_home [''kitchen.x'', ''abc''] =
       Inl (AllowedNlpClassesKeyError ''Domain: kitchen is not in the NLP component hierarchy'')
   \<and> extract_allowed_intents smart_home [''kitchen.x'', ''abc''] \<noteq> Inl ValueError"
  by (simp add: extract_allowed_intents_def extract_step_def smart_home_def)

subsection \<open>Dispatch of a batch to the worker pool\<close>

lemma gather_all_completed:
  assumes "\<forall>i\<in>set finished. i < length futures \<and> result_of (futures ! i) \<noteq> None"
    and "length results = length futures"
  shows "\<exists>out. gather futures finished results = Some out \<and> length out = length futures \<and>
     (\<forall>i<length futures. out ! i =
        (if i \<in> set finished then (case futures ! i of Completed item \<Rightarrow> Inr item | _ \<Rightarrow> results ! i)
         else results ! i))"
  using assms
proof (induction finished arbitrary: results)
  case Nil
  then show ?case by simp
next
  case (Cons idx rest)
  from Cons.prems(1) obtain item where item: "futures ! idx = Completed item" and idx: "idx < length futures"
    by (cases "futures ! idx") auto
  let ?results = "results[idx := Inr item]"
  from Cons.prems have "\<forall>i\<in>set rest. i < length futures \<and> result_of (futures ! i) \<noteq> None"
    and "length ?results = length futures"
    by simp_all
  from Cons.IH [OF this] obtain out where out: "gather futures rest ?results = Some out"
    "length out = length futures"
    "\<forall>i<length futures. out ! i =
        (if i \<in> set rest then (case futures ! i of Completed item \<Rightarrow> Inr item | _ \<Rightarrow> ?results ! i)
         else ?results ! i)"
    by blast
  have "\<forall>i<length futures. out ! i =
        (if i \<in> set (idx # rest) then (case futures ! i of Completed item \<Rightarrow> Inr item | _ \<Rightarrow> results ! i)
         else results ! i)"
  proof (intro allI impI)
    fix i assume i: "i < length futures"
    show "out ! i = (if i \<in> set (idx # rest) then (case futures ! i of Completed item \<Rightarrow> Inr item | _ \<Rightarrow> results ! i)
         else results ! i)"
    proof (cases "i = idx")
      case True
      with out(3) i item Cons.prems(2) show ?thesis by simp
    next
      case False
      with out(3) i show ?thesis by (simp split: future.splits)
    qed
  qed
  with out(1,2) item show ?case by simp
qed

lemma gather_raised:
  "idx \<in> set finished \<Longrightarrow> result_of (futures ! idx) = None \<Longrightarrow> gather futures finished results = None"
proof (induction finished arbitrary: results)
  case Nil
  then show ?case by simp
next
  case (Cons i rest)
  then show ?case
    by (cases "futures ! i") auto
qed

text \<open>
  Claim C5. When every future of the batch has completed with a result, whatever the order
  in which the loop meets the completed futures, \<open>process_list\<close> returns the results in
  submission order: its i-th element is the result held by the future of the i-th item,
  and the pool is kept. When a future is still pending at the timeout, the pool is
  replaced and the value returned is that of the method applied to each item in list
  order, the value returned when no pool is configured; the same holds when a future or
  the submission raised.
\<close>

theorem process_list_ordered:
  "(length rs = length items \<and> set finished = {..<length items} \<longrightarrow>
      process_list (Some pl) (Waited (map Completed rs) finished) func items =
        (map Inr rs, Some pl))
   \<and> (Pending \<in> set futures \<longrightarrow>
        process_list (Some pl) (Waited futures finished) func items =
          (map (\<lambda>itm. Inr (func itm)) items, Some (Suc pl)))
   \<and> (Pending \<notin> set futures \<and> (\<exists>i\<in>set finished. futures ! i = Raised) \<longrightarrow>
        process_list (Some pl) (Waited futures finished) func items =
          (map (\<lambda>itm. Inr (func itm)) items, Some (Suc pl)))
   \<and> process_list (Some pl) SubmitRaised func items =
        (map (\<lambda>itm. Inr (func itm)) items, Some (Suc pl))
   \<and> process_list None run func items = (map (\<lambda>itm. Inr (func itm)) items, None)"
proof -
  have aligned: "process_list (Some pl) (Waited (map Completed rs) finished) func items =
        (map Inr rs, Some pl)"
    if len: "length rs = length items" and all: "set finished = {..<length items}"
  proof -
    let ?futures = "map Completed rs :: 'a future list"
    have "\<forall>i\<in>set finished. i < length ?futures \<and> result_of (?futures ! i) \<noteq> None"
      using len all by simp
    moreover have "length (map Inl items :: ('b + 'a) list) = length ?futures"
      using len by simp
    ultimately obtain out where out: "gather ?futures finished (map Inl items) = Some out"
      "length out = length ?futures"
      "\<forall>i<length ?futures. out ! i =
        (if i \<in> set finished
         then (case ?futures ! i of Completed item \<Rightarrow> Inr item | _ \<Rightarrow> map Inl items ! i)
         else map Inl items ! i)"
      using gather_all_completed [of finished ?futures "map Inl items"] by blast
    have "out = map Inr rs"
    proof (rule nth_equalityI)
      show "length out = length (map Inr rs)"
        using out(2) by simp
    next
      fix i assume "i < length out"
      with out(2) have i: "i < length rs" by simp
      with all len have "i \<in> set finished" by simp
      with out(3) i show "out ! i = map Inr rs ! i" by simp
    qed
    moreover have "Pending \<notin> set ?futures" by auto
    ultimately show ?thesis
      using out(1) by (simp add: process_list_def)
  qed
  have timeout: "process_list (Some pl) (Waited futures finished) func items =
          (map (\<lambda>itm. Inr (func itm)) items, Some (Suc pl))"
    if "Pending \<in> set futures"
    using that by (simp add: process_list_def restart_subprocesses_def)
  have broken: "process_list (Some pl) (Waited futures finished) func items =
          (map (\<lambda>itm. Inr (func itm)) items, Some (Suc pl))"
    if "Pending \<notin> set futures" "\<exists>i\<in>set finished. futures ! i = Raised"
  proof -
    from that(2) obtain i where "i \<in> set finished" "result_of (futures ! i) = None"
      by auto
    then have "gather futures finished (map Inl items) = None"
      by (rule gather_raised)
    with that(1) show ?thesis
      by (simp add: process_list_def restart_subprocesses_def)
  qed
  have submit: "process_list (Some pl) SubmitRaised func items =
        (map (\<lambda>itm. Inr (func itm)) items, Some (Suc pl))"
    by (simp add: process_list_def restart_subprocesses_def)
  have serial: "process_list None run func items = (map (\<lambda>itm. Inr (func itm)) items, None)"
    by (simp add: process_list_def)
  from aligned timeout broken submit serial show ?thesis
    by blast
qed

theorem process_list_ordered_witness:
  "process_list (Some 0) (Waited [Completed (10::int), Completed 20, Completed 30] [2, 0, 1])
      (\<lambda>n::nat. int n * 10) [1, 2, 3] = ([Inr 10, Inr 20, Inr 30], Some 0)
   \<and> process_list (Some 0) (Waited [Completed (10::int), Pending, Completed 30] [2, 0])
      (\<lambda>n::nat. int n * 10) [1, 2, 3] = ([Inr 10, Inr 20, Inr 30], Some 1)
   \<and> process_list None (Waited [] []) (\<lambda>n::nat. int n * 10) [1, 2, 3] =
      ([Inr 10, Inr 20, Inr 30], None)"
proof -
  have set: "set [2, 0, 1 :: nat] = {..<length [1, 2, 3 :: nat]}"
    by auto
  have pending: "Pending \<in> set [Completed (10::int), Pending, Completed 30]"
    by simp
  from process_list_ordered [of "[10, 20, 30 :: int]" "[1, 2, 3 :: nat]" "[2, 0, 1]" 0
      "\<lambda>n. int n * 10" "[]"] set
  have 1: "process_list (Some 0) (Waited (map Completed [10, 20, 30 :: int]) [2, 0, 1])
      (\<lambda>n::nat. int n * 10) [1, 2, 3] = (map Inr [10, 20, 30], Some 0)"
    by simp
  from process_list_ordered [of "[]" "[1, 2, 3 :: nat]" "[2, 0]" 0
      "\<lambda>n. int n * 10" "[Completed (10::int), Pending, Completed 30]" "Waited [] []"] pending
  have 2: "process_list (Some 0) (Waited [Completed (10::int), Pending, Completed 30] [2, 0])
      (\<lambda>n::nat. int n * 10) [1, 2, 3] = (map (\<lambda>itm. Inr (int itm * 10)) [1, 2, 3], Some (Suc 0))"
    and 3: "process_list None (Waited [] []) (\<lambda>n::nat. int n * 10) [1, 2, 3] =
      (map (\<lambda>itm. Inr (int itm * 10)) [1, 2, 3], None)"
    by blast+
  from 1 2 3 show ?thesis by simp
qed

subsection \<open>Lifecycle\<close>

lemma flags_set_flags [simp]: "ready (set_flags r d p) = r" "dirty (set_flags r d p) = d"
  by (cases p; simp)+

lemma children_set_flags [simp]: "children (set_flags r d p) = children p"
  by (cases p) simp

lemma children_set_children [simp]: "children (set_children cs p) = cs"
  by (cases p) simp

lemma build_flags: "build depth h incremental p = Inr p' \<Longrightarrow> ready p' \<and> dirty p'"
  by (cases depth) (auto split: sum.splits option.splits if_splits)

lemma load_flags: "load depth h ts p = Inr p' \<Longrightarrow> ready p' \<and> \<not> dirty p'"
  by (cases depth) (auto split: sum.splits option.splits if_splits)

lemma dump_flags: "dump h p = Inr p' \<Longrightarrow> \<not> dirty p' \<and> ready p' = ready p"
  by (cases p) (auto split: sum.splits option.splits if_splits)

lemma build_children_flags:
  "build_children depth h incremental ts cs = Inr cs' \<Longrightarrow>
   map fst cs' = map fst cs \<and> (\<forall>c\<in>snd ` set cs'. ready c \<and> (dirty c \<longleftrightarrow> \<not> incremental))"
proof (induction cs arbitrary: cs')
  case Nil
  then show ?case by simp
next
  case (Cons lc cs)
  obtain label child where lc: "lc = (label, child)" by (cases lc)
  from Cons.prems lc obtain child1 child2 rest' where
    1: "build depth h incremental (set_incremental_timestamp ts child) = Inr child1"
    and 2: "(if incremental then dump h child1 else Inr child1) = Inr child2"
    and 3: "build_children depth h incremental ts cs = Inr rest'"
    and 4: "cs' = (label, child2) # rest'"
    by (auto split: sum.splits)
  from build_flags [OF 1] have b: "ready child1" "dirty child1" by simp_all
  have "ready child2 \<and> (dirty child2 \<longleftrightarrow> \<not> incremental)"
  proof (cases incremental)
    case True
    with 2 have "dump h child1 = Inr child2" by simp
    from dump_flags [OF this] b True show ?thesis by simp
  next
    case False
    with 2 b show ?thesis by simp
  qed
  with Cons.IH [OF 3] 4 lc show ?case by simp
qed

lemma build_children_of:
  assumes "build depth h incremental p = Inr p'"
  shows "\<forall>c\<in>snd ` set (children p'). ready c \<and> (dirty c \<longleftrightarrow> \<not> incremental)"
proof (cases depth)
  case 0
  with assms show ?thesis by simp
next
  case (Suc n)
  with assms obtain p1 cs where "build_children n h incremental (incremental_timestamp p1) (children p1) = Inr cs"
    and "p' = set_flags True True (set_children cs p1)"
    by (auto split: sum.splits option.splits if_splits)
  with build_children_flags [of n h incremental "incremental_timestamp p1" "children p1" cs]
  show ?thesis by simp
qed

lemma check_ready_not_ready: "\<not> ready p \<Longrightarrow> bind (check_ready p) f s = (Inl ProcessorError, s)"
  by (simp add: bind_def check_ready_def raise_def)

lemma check_ready_ready: "ready p \<Longrightarrow> bind (check_ready p) f s = f () s"
  by (simp add: bind_def check_ready_def return_def)

text \<open>
  Claim C6, as amended. After a successful \<open>build\<close> the processor is ready and dirty (and
  its children are ready, and dirty unless the build is incremental, which dumps them);
  after a successful \<open>load\<close> it is ready and not dirty; a successful \<open>dump\<close> leaves it not
  dirty and does not change \<open>ready\<close>. On a processor that is not ready,
  \<^verbatim>\<open>process_query\<close> of the natural language processor, of a domain processor and of
  an intent processor raises \<open>ProcessorError\<close> and leaves the state as it was: no
  component is consulted; so do \<^verbatim>\<open>process_entity\<close> and \<^verbatim>\<open>resolve_entity\<close> of an
  entity processor. \<^verbatim>\<open>process_query\<close> of an entity processor raises
  \<open>NotImplementedError\<close> whether it is ready or not, also without consulting a component.
\<close>

theorem lifecycle_flags:
  "(build depth h incremental p = Inr built \<longrightarrow>
      ready built \<and> dirty built
      \<and> (\<forall>c\<in>snd ` set (children built). ready c \<and> (dirty c \<longleftrightarrow> \<not> incremental)))
   \<and> (load depth h ts p = Inr loaded \<longrightarrow> ready loaded \<and> \<not> dirty loaded)
   \<and> (dump h p = Inr dumped \<longrightarrow> \<not> dirty dumped \<and> ready dumped = ready p)
   \<and> (\<not> ready p \<longrightarrow>
        nlp_process_query p runs query allowed_nlp_classes dynamic_resource verbose s =
          (Inl ProcessorError, s)
        \<and> domain_process_query p runs query allowed_intents dynamic_resource verbose s =
          (Inl ProcessorError, s)
        \<and> intent_process_query p runs query dynamic_resource verbose s =
          (Inl ProcessorError, s)
        \<and> process_entity p q entities entity_index verbose s = (Inl ProcessorError, s)
        \<and> resolve_entity p ent aligned_entity_spans s = (Inl ProcessorError, s))
   \<and> entity_process_query p q allowed_intents dynamic_resource verbose s =
        (Inl NotImplementedError, s)"
  using build_flags [of depth h incremental p built]
    build_children_of [of depth h incremental p built]
    load_flags [of depth h ts p loaded] dump_flags [of h p dumped]
  by (simp add: nlp_process_query_def domain_process_query_def intent_process_query_def
      process_entity_def resolve_entity_def entity_process_query_def check_ready_not_ready
      raise_def)

theorem lifecycle_flags_witness:
  "build (Suc (Suc (Suc 0))) quiet_hooks False unbuilt_nlp =
     Inr (Processor True True None (NaturalLanguageProcessor knows_d)
           [(''smart_home'', Processor True True None (DomainProcessor knows_d)
              [(''close_door'',
                Processor True True None (IntentProcessor no_entities None False) [])])])
   \<and> dump quiet_hooks (Processor True True None (DomainProcessor knows_d) []) =
     Inr (Processor True False None (DomainProcessor knows_d) [])
   \<and> load (Suc 0) quiet_hooks None (Processor False False None (DomainProcessor knows_d) []) =
     Inr (Processor True False None (DomainProcessor knows_d) [])
   \<and> nlp_process_query unbuilt_nlp \<lparr>recognition_run = SubmitRaised, entities_run = SubmitRaised\<rparr>
       (One ()) None () False empty_state = (Inl ProcessorError, empty_state)"
proof -
  let ?built = "Processor True True None (NaturalLanguageProcessor knows_d)
           [(''smart_home'', Processor True True None (DomainProcessor knows_d)
              [(''close_door'',
                Processor True True None (IntentProcessor no_entities None False) [])])]"
  let ?leaf = "Processor True True None (DomainProcessor knows_d) []"
  let ?unloaded = "Processor False False None (DomainProcessor knows_d) []"
  let ?saved = "Processor True False None (DomainProcessor knows_d) []"
  have b: "build (Suc (Suc (Suc 0))) quiet_hooks False unbuilt_nlp = Inr ?built"
    by (simp add: quiet_hooks_def unbuilt_nlp_def unbuilt_domain_def unbuilt_intent_def)
  have d: "dump quiet_hooks ?leaf = Inr ?saved"
    by (simp add: quiet_hooks_def)
  have l: "load (Suc 0) quiet_hooks None ?unloaded = Inr ?saved"
    by (simp add: quiet_hooks_def)
  have n: "\<not> ready unbuilt_nlp"
    by (simp add: unbuilt_nlp_def)
  from lifecycle_flags [of "Suc (Suc (Suc 0))" quiet_hooks False unbuilt_nlp ?built None ?unloaded
      ?unloaded "\<lparr>recognition_run = SubmitRaised, entities_run = SubmitRaised\<rparr>" "One ()" None
      "()" False empty_state] n
  have "nlp_process_query unbuilt_nlp \<lparr>recognition_run = SubmitRaised, entities_run = SubmitRaised\<rparr>
       (One ()) None () False empty_state = (Inl ProcessorError, empty_state)"
    by blast
  with b d l show ?thesis by simp
qed

text \<open>
  The claim as stated fails for the fourth class of processors: on an entity processor
  that is not ready, \<^verbatim>\<open>process_query\<close> raises \<open>NotImplementedError\<close>, not
  \<open>ProcessorError\<close>.
\<close>

theorem lifecycle_flags_counterexample:
  "ready (number_processor False) = False
   \<and> entity_process_query (number_processor False) () None () False empty_state =
       (Inl NotImplementedError, empty_state)
   \<and> NotImplementedError \<noteq> ProcessorError"
  by (simp add: number_processor_def entity_process_query_def raise_def)

subsection \<open>The entity tier\<close>

lemma modify_bind: "bind (modify a f) g s = g () (s\<lparr>objects := (objects s)[a := f (objects s ! a)]\<rparr>)"
  by (simp add: bind_def modify_def)

lemma consult_bind: "bind (consult c k) g s = g () (s\<lparr>calls := calls s @ [(c, k)]\<rparr>)"
  by (simp add: bind_def consult_def)

lemma get_objects_bind: "bind get_objects g s = g (objects s) s"
  by (simp add: bind_def get_objects_def)

lemma return_bind: "bind (return x) g s = g x s"
  by (simp add: bind_def return_def)

lemma raise_bind: "bind (raise e) g s = (Inl e, s)"
  by (simp add: bind_def raise_def)

text \<open>
  Claim C8. For an entity processor whose role classifier has no roles, \<open>process_entity\<close>
  leaves the state as it was (no call to the role classifier, no role written into the
  entity), and on a ready processor it returns the entity with the confidence \<open>None\<close>.
  On a ready processor \<open>resolve_entity\<close> asks the resolver once and writes its answer
  into the value of the entity: the answer for the entities of the whole aligned group
  when a group that is not empty is supplied, and for the single entity otherwise (no
  group, or an empty one).
\<close>

theorem entity_processing:
  assumes "tier p = EntityProcessor role_classifier entity_resolver"
  shows "(roles role_classifier = [] \<longrightarrow>
            snd (process_entity p q entities entity_index verbose s) = s
            \<and> (ready p \<and> entity_index < length entities \<longrightarrow>
                 fst (process_entity p q entities entity_index verbose s) =
                   Inr (entities ! entity_index, None)))
       \<and> (ready p \<longrightarrow>
            resolve_entity p ent (Some (e # es)) s =
              (Inr ent,
               s\<lparr>calls := calls s @ [(EntityResolver, Predict)],
                 objects := (objects s)[ent := (objects s ! ent)\<lparr>entity :=
                   (entity (objects s ! ent))\<lparr>resolved :=
                      entity_resolver (map (\<lambda>a. entity (objects s ! a)) (e # es))\<rparr>\<rparr>]\<rparr>)
            \<and> resolve_entity p ent None s =
              (Inr ent,
               s\<lparr>calls := calls s @ [(EntityResolver, Predict)],
                 objects := (objects s)[ent := (objects s ! ent)\<lparr>entity :=
                   (entity (objects s ! ent))\<lparr>resolved :=
                      entity_resolver [entity (objects s ! ent)]\<rparr>\<rparr>]\<rparr>)
            \<and> resolve_entity p ent (Some []) s = resolve_entity p ent None s)"
proof -
  have 1: "snd (process_entity p q entities entity_index verbose s) = s"
    if "roles role_classifier = []"
    using that assms
    by (cases "ready p")
      (simp_all add: process_entity_def check_ready_not_ready check_ready_ready raise_def
        return_def)
  have 2: "fst (process_entity p q entities entity_index verbose s) =
      Inr (entities ! entity_index, None)"
    if "roles role_classifier = []" "ready p" "entity_index < length entities"
    using that assms
    by (simp add: process_entity_def check_ready_ready return_def)
  have 3: "resolve_entity p ent (Some (e # es)) s =
              (Inr ent,
               s\<lparr>calls := calls s @ [(EntityResolver, Predict)],
                 objects := (objects s)[ent := (objects s ! ent)\<lparr>entity :=
                   (entity (objects s ! ent))\<lparr>resolved :=
                      entity_resolver (map (\<lambda>a. entity (objects s ! a)) (e # es))\<rparr>\<rparr>]\<rparr>)"
    if "ready p"
    using that assms
    by (simp add: resolve_entity_def check_ready_ready get_objects_bind consult_bind
        modify_bind return_def)
  have 4: "resolve_entity p ent None s =
              (Inr ent,
               s\<lparr>calls := calls s @ [(EntityResolver, Predict)],
                 objects := (objects s)[ent := (objects s ! ent)\<lparr>entity :=
                   (entity (objects s ! ent))\<lparr>resolved :=
                      entity_resolver [entity (objects s ! ent)]\<rparr>\<rparr>]\<rparr>)"
    if "ready p"
    using that assms
    by (simp add: resolve_entity_def check_ready_ready get_objects_bind consult_bind
        modify_bind return_def)
  have 5: "resolve_entity p ent (Some []) s = resolve_entity p ent None s"
    using assms
    by (cases "ready p")
      (simp_all add: resolve_entity_def check_ready_ready check_ready_not_ready
        get_objects_bind)
  from 1 2 3 4 5 show ?thesis by blast
qed

theorem entity_processing_witness:
  "process_entity (number_processor True) () [0] 0 True
     \<lparr>objects = [recognized ''number'' ''2'' 5 6, recognized ''number'' ''two'' 5 8],
      pool = None, calls = []\<rparr> =
     (Inr (0, None),
      \<lparr>objects = [recognized ''number'' ''2'' 5 6, recognized ''number'' ''two'' 5 8],
       pool = None, calls = []\<rparr>)
   \<and> resolve_entity (number_processor True) 0 (Some [1, 0])
     \<lparr>objects = [recognized ''number'' ''2'' 5 6, recognized ''number'' ''two'' 5 8],
      pool = None, calls = []\<rparr> =
     (Inr 0,
      \<lparr>objects = [(recognized ''number'' ''2'' 5 6)\<lparr>entity :=
                     (entity (recognized ''number'' ''2'' 5 6))\<lparr>resolved := Some ''two''\<rparr>\<rparr>,
                  recognized ''number'' ''two'' 5 8],
       pool = None, calls = [(EntityResolver, Predict)]\<rparr>)
   \<and> resolve_entity (number_processor True) 0 None
     \<lparr>objects = [recognized ''number'' ''2'' 5 6, recognized ''number'' ''two'' 5 8],
      pool = None, calls = []\<rparr> =
     (Inr 0,
      \<lparr>objects = [(recognized ''number'' ''2'' 5 6)\<lparr>entity :=
                     (entity (recognized ''number'' ''2'' 5 6))\<lparr>resolved := Some ''2''\<rparr>\<rparr>,
                  recognized ''number'' ''two'' 5 8],
       pool = None, calls = [(EntityResolver, Predict)]\<rparr>)"
proof -
  let ?s = "\<lparr>objects = [recognized ''number'' ''2'' 5 6, recognized ''number'' ''two'' 5 8],
      pool = None, calls = []\<rparr>"
  have t: "tier (number_processor True) = EntityProcessor without_roles first_text"
    and r: "ready (number_processor True)" and n: "roles without_roles = []"
    by (simp_all add: number_processor_def without_roles_def)
  note inst = entity_processing [OF t, of "()" "[0]" 0 True ?s 0 1 "[0]"]
  from inst n r have "snd (process_entity (number_processor True) () [0] 0 True ?s) = ?s"
    and "fst (process_entity (number_processor True) () [0] 0 True ?s) = Inr ([0] ! 0, None)"
    by simp_all
  then have 1: "process_entity (number_processor True) () [0] 0 True ?s = (Inr (0, None), ?s)"
    by (simp add: prod_eq_iff)
  from inst r have 2: "resolve_entity (number_processor True) 0 (Some [1, 0]) ?s =
     (Inr 0,
      ?s\<lparr>calls := calls ?s @ [(EntityResolver, Predict)],
         objects := (objects ?s)[0 := (objects ?s ! 0)\<lparr>entity :=
           (entity (objects ?s ! 0))\<lparr>resolved :=
              first_text (map (\<lambda>a. entity (objects ?s ! a)) [1, 0])\<rparr>\<rparr>]\<rparr>)"
    and 3: "resolve_entity (number_processor True) 0 None ?s =
     (Inr 0,
      ?s\<lparr>calls := calls ?s @ [(EntityResolver, Predict)],
         objects := (objects ?s)[0 := (objects ?s ! 0)\<lparr>entity :=
           (entity (objects ?s ! 0))\<lparr>resolved :=
              first_text [entity (objects ?s ! 0)]\<rparr>\<rparr>]\<rparr>)"
    by simp_all
  from 1 2 3 show ?thesis
    by (simp add: first_text_def recognized_def)
qed

subsection \<open>Post-processing and the recognized entities\<close>

text \<open>Results and successive states of a computation in the monad.\<close>

lemma bind_Inr:
  "bind m f s = (Inr y, s') \<Longrightarrow> \<exists>x s1. m s = (Inr x, s1) \<and> f x s1 = (Inr y, s')"
  by (auto simp: bind_def split: prod.splits sum.splits)

lemma bind_cases:
  "bind m f s = (r, s') \<Longrightarrow>
   (\<exists>e. m s = (Inl e, s') \<and> r = Inl e) \<or> (\<exists>x s1. m s = (Inr x, s1) \<and> f x s1 = (r, s'))"
  by (auto simp: bind_def split: prod.splits sum.splits)

lemma keeps_return: "P x \<Longrightarrow> keeps n P (return x)"
  by (simp add: keeps_def return_def)

lemma keeps_raise: "keeps n P (raise e)"
  by (simp add: keeps_def raise_def)

lemma keeps_bind:
  assumes m: "keeps n Q m" and f: "\<And>x. Q x \<Longrightarrow> keeps n P (f x)"
  shows "keeps n P (bind m f)"
  unfolding keeps_def
proof (intro allI impI)
  fix s r s'
  assume n: "n \<le> length (objects s)" and run: "bind m f s = (r, s')"
  from bind_cases [OF run] show "length (objects s) \<le> length (objects s') \<and>
        (\<forall>a<n. objects s' ! a = objects s ! a) \<and> (\<forall>x. r = Inr x \<longrightarrow> P x)"
  proof
    assume "\<exists>e. m s = (Inl e, s') \<and> r = Inl e"
    then obtain e where "m s = (Inl e, s')" "r = Inl e" by blast
    with m n show ?thesis
      unfolding keeps_def by blast
  next
    assume "\<exists>x s1. m s = (Inr x, s1) \<and> f x s1 = (r, s')"
    then obtain x s1 where 1: "m s = (Inr x, s1)" and 2: "f x s1 = (r, s')" by blast
    from m n 1 have a: "length (objects s) \<le> length (objects s1)"
      "\<forall>a<n. objects s1 ! a = objects s ! a" "Q x"
      unfolding keeps_def by blast+
    from n a(1) have n1: "n \<le> length (objects s1)" by simp
    from f [OF a(3)] have "n \<le> length (objects s1) \<longrightarrow> f x s1 = (r, s') \<longrightarrow>
        length (objects s1) \<le> length (objects s') \<and>
        (\<forall>a<n. objects s' ! a = objects s1 ! a) \<and> (\<forall>x. r = Inr x \<longrightarrow> P x)"
      unfolding keeps_def by blast
    with n1 2 have b: "length (objects s1) \<le> length (objects s')"
      "\<forall>a<n. objects s' ! a = objects s1 ! a" "\<forall>x. r = Inr x \<longrightarrow> P x"
      by simp_all
    from a b show ?thesis by simp
  qed
qed

lemma keeps_weaken: "keeps n P m \<Longrightarrow> (\<And>x. P x \<Longrightarrow> Q x) \<Longrightarrow> keeps n Q m"
  unfolding keeps_def by blast

lemma keeps_get_objects: "keeps n (\<lambda>h. True) get_objects"
  by (simp add: keeps_def get_objects_def)

lemma keeps_consult: "keeps n (\<lambda>u. True) (consult c k)"
  by (simp add: keeps_def consult_def)

lemma keeps_modify: "n \<le> a \<Longrightarrow> keeps n (\<lambda>u. True) (modify a f)"
  by (simp add: keeps_def modify_def)

lemma keeps_allocate: "keeps n (\<lambda>refs. \<forall>a\<in>set refs. n \<le> a) (allocate vs)"
  by (auto simp: keeps_def allocate_def nth_append)

lemma keeps_check_ready: "keeps n (\<lambda>u. True) (check_ready p)"
  by (simp add: check_ready_def keeps_raise keeps_return)

lemma keeps_in_series:
  "(\<And>m. m \<in> set ms \<Longrightarrow> keeps n P m) \<Longrightarrow> keeps n (list_all P) (in_series ms)"
proof (induction ms)
  case Nil
  then show ?case by (simp add: keeps_return)
next
  case (Cons m ms)
  have "keeps n P m" using Cons.prems by simp
  moreover have "keeps n (list_all P) (in_series ms)"
    using Cons by simp
  ultimately show ?case
    unfolding in_series.simps
    by (intro keeps_bind [where Q = P] keeps_bind [where Q = "list_all P"] keeps_return)
      simp_all
qed

text \<open>
  Role classification and resolution write to the entity they are given and to nothing
  else, so a batch of them on entities above \<open>n\<close> keeps the objects below \<open>n\<close>.
\<close>

lemma keeps_process_entity:
  assumes "\<forall>a\<in>set entities. n \<le> a"
  shows "keeps n (\<lambda>r. n \<le> fst r) (process_entity p q entities idx verbose)"
proof -
  have ent: "n \<le> entities ! idx" if "idx < length entities"
    using assms that by simp
  show ?thesis
    unfolding process_entity_def
  proof (rule keeps_bind [OF keeps_check_ready])
    show "keeps n (\<lambda>r. n \<le> fst r)
      (case tier p of
         EntityProcessor role_classifier entity_resolver \<Rightarrow>
           if idx < length entities then
             (let ent = entities ! idx in
              if roles role_classifier \<noteq> [] then
                (if verbose then
                   bind (consult RoleClassifier PredictProba) (\<lambda>_.
                   bind get_objects (\<lambda>h.
                     case role_predict_proba role_classifier q
                            (map (\<lambda>a. h ! a) entities) idx of
                       [] \<Rightarrow> raise IndexError
                     | (r, score) # rest \<Rightarrow>
                         bind (modify ent (\<lambda>e. e\<lparr>entity := (entity e)\<lparr>role := Some r\<rparr>\<rparr>)) (\<lambda>_.
                         return (ent, Some ((r, score) # rest)))))
                 else
                   bind (consult RoleClassifier Predict) (\<lambda>_.
                   bind get_objects (\<lambda>h.
                   bind (modify ent (\<lambda>e. e\<lparr>entity := (entity e)\<lparr>role :=
                           Some (role_predict role_classifier q
                                   (map (\<lambda>a. h ! a) entities) idx)\<rparr>\<rparr>)) (\<lambda>_.
                   return (ent, None)))))
              else return (ent, None))
           else raise IndexError
       | _ \<Rightarrow> raise AttributeError)"
    proof (cases "tier p")
      case (EntityProcessor role_classifier entity_resolver)
      show ?thesis
      proof (cases "idx < length entities")
        case False
        with EntityProcessor show ?thesis by (simp add: keeps_raise)
      next
        case True
        note e = ent [OF True]
        have m: "keeps n (\<lambda>u. True) (modify (entities ! idx) f)" for f
          by (rule keeps_modify [OF e])
        have "keeps n (\<lambda>r. n \<le> fst r)
                (case proba of
                       [] \<Rightarrow> raise IndexError
                     | (r, score) # rest \<Rightarrow>
                         bind (modify (entities ! idx) (\<lambda>e. e\<lparr>entity := (entity e)\<lparr>role := Some r\<rparr>\<rparr>)) (\<lambda>_.
                         return (entities ! idx, Some ((r, score) # rest))))" for proba
          by (cases proba) (auto simp: keeps_raise e intro!: keeps_bind [OF m] keeps_return)
        then have verb: "keeps n (\<lambda>r. n \<le> fst r)
                  (bind (consult RoleClassifier PredictProba) (\<lambda>_.
                   bind get_objects (\<lambda>h.
                     case role_predict_proba role_classifier q
                            (map (\<lambda>a. h ! a) entities) idx of
                       [] \<Rightarrow> raise IndexError
                     | (r, score) # rest \<Rightarrow>
                         bind (modify (entities ! idx) (\<lambda>e. e\<lparr>entity := (entity e)\<lparr>role := Some r\<rparr>\<rparr>)) (\<lambda>_.
                         return (entities ! idx, Some ((r, score) # rest))))))"
          by (intro keeps_bind [OF keeps_consult] keeps_bind [OF keeps_get_objects])
        have plain: "keeps n (\<lambda>r. n \<le> fst r)
                  (bind (consult RoleClassifier Predict) (\<lambda>_.
                   bind get_objects (\<lambda>h.
                   bind (modify (entities ! idx) (\<lambda>e. e\<lparr>entity := (entity e)\<lparr>role :=
                           Some (role_predict role_classifier q
                                   (map (\<lambda>a. h ! a) entities) idx)\<rparr>\<rparr>)) (\<lambda>_.
                   return (entities ! idx, None :: confidence option)))))"
          by (intro keeps_bind [OF keeps_consult] keeps_bind [OF keeps_get_objects]
              keeps_bind [OF m] keeps_return) (simp add: e)
        from verb plain e True EntityProcessor show ?thesis
          by (simp add: keeps_return Let_def)
      qed
    qed (simp_all add: keeps_raise)
  qed
qed

lemma keeps_resolve_entity:
  assumes "n \<le> ent"
  shows "keeps n (\<lambda>r. n \<le> r) (resolve_entity p ent spans)"
  unfolding resolve_entity_def
proof (rule keeps_bind [OF keeps_check_ready])
  show "keeps n ((\<le>) n)
     (case tier p of
        EntityProcessor role_classifier entity_resolver \<Rightarrow>
          bind get_objects (\<lambda>h.
            let entity_list =
                  (case spans of
                     Some (e # es) \<Rightarrow> map (\<lambda>a. entity (h ! a)) (e # es)
                   | _ \<Rightarrow> [entity (h ! ent)]) in
            bind (consult EntityResolver Predict) (\<lambda>_.
            bind (modify ent (\<lambda>e. e\<lparr>entity := (entity e)\<lparr>resolved :=
                    entity_resolver entity_list\<rparr>\<rparr>)) (\<lambda>_.
            return ent)))
      | _ \<Rightarrow> raise AttributeError)"
  proof (cases "tier p")
    case (EntityProcessor role_classifier entity_resolver)
    have "keeps n ((\<le>) n)
            (bind (consult EntityResolver Predict) (\<lambda>_.
             bind (modify ent f) (\<lambda>_. return ent)))" for f
      by (intro keeps_bind [OF keeps_consult] keeps_bind [OF keeps_modify [OF assms]]
          keeps_return) (rule assms)
    then show ?thesis
      unfolding EntityProcessor tier.case Let_def
      by (intro keeps_bind [OF keeps_get_objects])
  qed (simp_all add: keeps_raise)
qed

lemma keeps_classify_and_resolve_entities:
  assumes "\<forall>a\<in>set processed. n \<le> a"
  shows "keeps n (\<lambda>r. n \<le> fst r)
           (classify_and_resolve_entities p idx q processed aligned verbose)"
proof (cases "idx < length processed")
  case False
  then show ?thesis
    by (simp add: classify_and_resolve_entities_def keeps_raise)
next
  case True
  have inner: "keeps n (\<lambda>r. n \<le> fst r)
     (case map_of (children p) ty of
            None \<Rightarrow> raise KeyError
          | Some entity_processor \<Rightarrow>
              if idx < length aligned then
                bind (resolve_entity entity_processor ent (Some (aligned ! idx)))
                  (\<lambda>ent. return (ent, role_confidence))
              else raise IndexError)" if "n \<le> ent" for ty ent role_confidence
  proof (cases "map_of (children p) ty")
    case None
    then show ?thesis by (simp add: keeps_raise)
  next
    case (Some ep)
    have "keeps n (\<lambda>r. n \<le> fst r)
        (bind (resolve_entity ep ent (Some (aligned ! idx))) (\<lambda>ent. return (ent, role_confidence)))"
      by (rule keeps_bind [OF keeps_resolve_entity [OF that]]) (simp add: keeps_return)
    with Some show ?thesis by (simp add: keeps_raise)
  qed
  have outer: "keeps n (\<lambda>r. n \<le> fst r)
     (case map_of (children p) ty of
        None \<Rightarrow> raise KeyError
      | Some entity_processor \<Rightarrow>
          bind (process_entity entity_processor q processed idx verbose)
            (\<lambda>(ent, role_confidence).
          bind get_objects (\<lambda>h.
            case map_of (children p) (etype (entity (h ! ent))) of
              None \<Rightarrow> raise KeyError
            | Some entity_processor \<Rightarrow>
                if idx < length aligned then
                  bind (resolve_entity entity_processor ent (Some (aligned ! idx)))
                    (\<lambda>ent. return (ent, role_confidence))
                else raise IndexError)))" for ty
  proof (cases "map_of (children p) ty")
    case None
    then show ?thesis by (simp add: keeps_raise)
  next
    case (Some ep)
    have "keeps n (\<lambda>r. n \<le> fst r)
          (bind (process_entity ep q processed idx verbose)
            (\<lambda>(ent, role_confidence).
          bind get_objects (\<lambda>h.
            case map_of (children p) (etype (entity (h ! ent))) of
              None \<Rightarrow> raise KeyError
            | Some entity_processor \<Rightarrow>
                if idx < length aligned then
                  bind (resolve_entity entity_processor ent (Some (aligned ! idx)))
                    (\<lambda>ent. return (ent, role_confidence))
                else raise IndexError)))"
    proof (rule keeps_bind [OF keeps_process_entity [OF assms]])
      fix x :: "addr \<times> confidence option"
      assume x: "n \<le> fst x"
      obtain ent c where xc: "x = (ent, c)" by (cases x)
      with x have "n \<le> ent" by simp
      from inner [OF this] show "keeps n (\<lambda>r. n \<le> fst r)
          (case x of (ent, role_confidence) \<Rightarrow>
          bind get_objects (\<lambda>h.
            case map_of (children p) (etype (entity (h ! ent))) of
              None \<Rightarrow> raise KeyError
            | Some entity_processor \<Rightarrow>
                if idx < length aligned then
                  bind (resolve_entity entity_processor ent (Some (aligned ! idx)))
                    (\<lambda>ent. return (ent, role_confidence))
                else raise IndexError))"
        unfolding xc prod.case
        by (intro keeps_bind [OF keeps_get_objects])
    qed
    with Some show ?thesis by simp
  qed
  from True show ?thesis
    unfolding classify_and_resolve_entities_def
    by (simp only: if_True) (intro keeps_bind [OF keeps_get_objects] outer)
qed

lemma keeps_process_list_run:
  fixes func :: "'a \<Rightarrow> 'b run" and unpickle :: "'v \<Rightarrow> 'b run" and items :: "'a list"
  assumes func: "\<And>item. item \<in> set items \<Longrightarrow> keeps n P (func item)"
    and unp: "\<And>v. keeps n P (unpickle v)"
  shows "keeps n (list_all P) (process_list_run run func pickle unpickle items)"
proof -
  have serial: "keeps n (list_all P) (in_series (map func items))"
    by (rule keeps_in_series) (auto intro: func)
  have unpickled: "keeps n (list_all P)
      (in_series (map (\<lambda>r. case r of Inr v \<Rightarrow> unpickle v | Inl item \<Rightarrow> raise TypeError) results))"
    for results :: "('a + 'v) list"
  proof (rule keeps_in_series)
    fix m assume "m \<in> set (map (\<lambda>r. case r of Inr v \<Rightarrow> unpickle v | Inl item \<Rightarrow> raise TypeError) results)"
    then obtain r :: "'a + 'v" where "m = (case r of Inr v \<Rightarrow> unpickle v | Inl item \<Rightarrow> raise TypeError)"
      by auto
    then show "keeps n P m"
      by (cases r) (simp_all add: unp keeps_raise)
  qed
  show ?thesis
    unfolding keeps_def
  proof (intro allI impI)
    fix s r s'
    assume n: "n \<le> length (objects s)"
      and run: "process_list_run run func pickle unpickle items s = (r, s')"
    show "length (objects s) \<le> length (objects s') \<and>
        (\<forall>a<n. objects s' ! a = objects s ! a) \<and> (\<forall>x. r = Inr x \<longrightarrow> list_all P x)"
    proof (cases "pool s")
      case None
      with run have "in_series (map func items) s = (r, s')"
        by (simp add: process_list_run_def)
      with serial n show ?thesis
        unfolding keeps_def by blast
    next
      case (Some pl)
      let ?tried = "(case run of
                   SubmitRaised \<Rightarrow> None
                 | Waited statuses finished \<Rightarrow>
                     try_pool
                       (Waited (map (\<lambda>(status, item). worker func pickle s status item)
                                  (zip statuses items)) finished)
                       items)"
      show ?thesis
      proof (cases ?tried)
        case None
        let ?s = "s\<lparr>pool := restart_subprocesses (pool s)\<rparr>"
        from run Some None have "in_series (map func items) ?s = (r, s')"
          by (simp add: process_list_run_def)
        moreover have "n \<le> length (objects ?s)" using n by simp
        ultimately have "length (objects ?s) \<le> length (objects s') \<and>
            (\<forall>a<n. objects s' ! a = objects ?s ! a) \<and> (\<forall>x. r = Inr x \<longrightarrow> list_all P x)"
          using serial unfolding keeps_def by blast
        then show ?thesis by simp
      next
        case (Some results)
        with run \<open>pool s = Some pl\<close>
        have "in_series (map (\<lambda>r. case r of Inr v \<Rightarrow> unpickle v | Inl item \<Rightarrow> raise TypeError)
                results) s = (r, s')"
          by (simp add: process_list_run_def)
        with unpickled [of results] n show ?thesis
          unfolding keeps_def by blast
      qed
    qed
  qed
qed

lemma keeps_unpickle_entity: "keeps n (\<lambda>r. n \<le> fst r) (unpickle_entity v)"
  by (simp add: keeps_def unpickle_entity_def bind_def allocate_def return_def nth_append)

lemma keeps_process_entities:
  "keeps n (\<lambda>r. \<forall>a\<in>set (fst r). n \<le> a)
     (process_entities p run query entities aligned verbose)"
proof (cases "tier p")
  case (IntentProcessor recognizer parser nbest)
  show ?thesis
  proof (cases query)
    case Nil
    with IntentProcessor show ?thesis
      by (simp add: process_entities_def keeps_raise)
  next
    case (Cons q qs)
    show ?thesis
    proof (cases entities)
      case Nil
      with IntentProcessor Cons show ?thesis
        by (simp add: process_entities_def keeps_raise)
    next
      case ents: (Cons reference rest)
      have tail: "keeps n (\<lambda>r. \<forall>a\<in>set (fst r). n \<le> a)
          (case parser of
             None \<Rightarrow> return processed
           | Some parse_entities \<Rightarrow>
               bind get_objects (\<lambda>h.
               bind (allocate (parse_entities q (map (\<lambda>a. h ! a) (fst processed))))
                 (\<lambda>parsed. return (parsed, snd processed))))"
        if "\<forall>a\<in>set (fst processed). n \<le> a"
        for processed :: "addr list \<times> confidence option list"
      proof (cases parser)
        case None
        with that show ?thesis by (simp add: keeps_return)
      next
        case (Some parse_entities)
        have "keeps n (\<lambda>r. \<forall>a\<in>set (fst r). n \<le> a)
               (bind (allocate vs) (\<lambda>parsed. return (parsed, snd processed)))" for vs
          by (rule keeps_bind [OF keeps_allocate]) (simp add: keeps_return)
        then show ?thesis
          unfolding Some option.case
          by (intro keeps_bind [OF keeps_get_objects])
      qed
      have batch: "keeps n (\<lambda>r. \<forall>a\<in>set (fst r). n \<le> a)
          (bind (process_list_run run
                   (\<lambda>idx. classify_and_resolve_entities p idx q processed_entities aligned verbose)
                   pickle_entity unpickle_entity [0..<length processed_entities])
             (\<lambda>processed_entities_conf.
                let processed =
                      (if processed_entities_conf \<noteq> []
                       then (map fst processed_entities_conf, map snd processed_entities_conf)
                       else (processed_entities, [])) in
                case parser of
                  None \<Rightarrow> return processed
                | Some parse_entities \<Rightarrow>
                    bind get_objects (\<lambda>h.
                    bind (allocate (parse_entities q (map (\<lambda>a. h ! a) (fst processed))))
                      (\<lambda>parsed. return (parsed, snd processed)))))"
        if copies: "\<forall>a\<in>set processed_entities. n \<le> a" for processed_entities
      proof (rule keeps_bind
          [OF keeps_process_list_run [where P = "\<lambda>r. n \<le> fst r"]])
        show "keeps n (\<lambda>r. n \<le> fst r)
            (classify_and_resolve_entities p item q processed_entities aligned verbose)" for item
          by (rule keeps_classify_and_resolve_entities [OF copies])
        show "keeps n (\<lambda>r. n \<le> fst r) (unpickle_entity v)" for v
          by (rule keeps_unpickle_entity)
      next
        fix conf :: "(addr \<times> confidence option) list"
        assume all: "list_all (\<lambda>r. n \<le> fst r) conf"
        let ?processed = "(if conf \<noteq> [] then (map fst conf, map snd conf)
                           else (processed_entities, []))"
        have "\<forall>a\<in>set (fst ?processed). n \<le> a"
          using all copies by (auto simp: list_all_iff)
        from tail [OF this] show "keeps n (\<lambda>r. \<forall>a\<in>set (fst r). n \<le> a)
            (let processed = ?processed in
                case parser of
                  None \<Rightarrow> return processed
                | Some parse_entities \<Rightarrow>
                    bind get_objects (\<lambda>h.
                    bind (allocate (parse_entities q (map (\<lambda>a. h ! a) (fst processed))))
                      (\<lambda>parsed. return (parsed, snd processed))))"
          unfolding Let_def .
      qed
      show ?thesis
        unfolding process_entities_def IntentProcessor tier.case Cons ents list.case
        by (intro keeps_bind [OF keeps_get_objects] keeps_bind [OF keeps_allocate] batch)
    qed
  qed
qed (simp_all add: process_entities_def keeps_raise)

text \<open>Recognition appends what the recognizer returns and refers to nothing else.\<close>

lemma creates_return: "refs x = {} \<Longrightarrow> creates V refs (return x)"
  by (simp add: creates_def return_def)

lemma creates_raise: "creates V refs (raise e)"
  by (simp add: creates_def raise_def)

lemma new_objects_run:
  "new_objects prediction s =
     (Inr (case prediction of
             Entities es \<Rightarrow> Plain [length (objects s)..<length (objects s) + length es]
           | ScoredEntities pairs \<Rightarrow>
               Scored (zip [length (objects s)..<length (objects s) + length pairs]
                         (map snd pairs))),
      s\<lparr>objects := objects s @ entities_of prediction\<rparr>)"
  by (cases prediction) (simp_all add: new_objects_def bind_def allocate_def return_def)

lemma refs_of_new_objects:
  "new_objects prediction s = (Inr t, s') \<Longrightarrow>
   refs_of t = [length (objects s)..<length (objects s) + length (entities_of prediction)]"
  by (cases prediction) (auto simp: new_objects_run)

lemma creates_new_objects:
  assumes "set (entities_of prediction) \<subseteq> V"
  shows "creates V (\<lambda>t. set (refs_of t)) (new_objects prediction)"
  unfolding creates_def
proof (intro allI impI conjI)
  fix s r s'
  assume run: "new_objects prediction s = (r, s')"
  then have s': "objects s' = objects s @ entities_of prediction" and r: "\<exists>t. r = Inr t"
    by (auto simp: new_objects_run)
  from s' assms show "\<exists>vs. objects s' = objects s @ vs \<and> set vs \<subseteq> V" by blast
  fix t assume "r = Inr t"
  with run have "refs_of t = [length (objects s)..<length (objects s) + length (entities_of prediction)]"
    by (simp add: refs_of_new_objects)
  with s' show "set (refs_of t) \<subseteq> {length (objects s)..<length (objects s')}"
    by simp
qed

lemma creates_recognize_query:
  assumes "set (entities_of (predict_entities recognizer d verbose q)) \<subseteq> V"
  shows "creates V (\<lambda>t. set (refs_of t)) (recognize_query recognizer d verbose q)"
proof -
  have "recognize_query recognizer d verbose q s =
      new_objects (predict_entities recognizer d verbose q)
        (s\<lparr>calls := calls s @ [(EntityRecognizer, if verbose then PredictProba else Predict)]\<rparr>)"
    for s
    by (simp add: recognize_query_def bind_def consult_def)
  with creates_new_objects [OF assms] show ?thesis
    unfolding creates_def
    by (metis (no_types, lifting) state.select_convs(1) state.surjective state.update_convs(3))
qed

lemma createsD:
  "creates V refs m \<Longrightarrow> m s = (r, s') \<Longrightarrow>
   (\<exists>vs. objects s' = objects s @ vs \<and> set vs \<subseteq> V) \<and>
   (\<forall>x. r = Inr x \<longrightarrow> refs x \<subseteq> {length (objects s)..<length (objects s')})"
  by (simp add: creates_def)

lemma creates_in_series:
  assumes "\<And>m. m \<in> set ms \<Longrightarrow> creates V refs m"
  shows "creates V (\<lambda>xs. \<Union>x\<in>set xs. refs x) (in_series ms)"
  using assms
proof (induction ms)
  case Nil
  then show ?case by (simp add: creates_return)
next
  case (Cons m ms)
  have m: "creates V refs m" using Cons.prems by simp
  have ms: "creates V (\<lambda>xs. \<Union>x\<in>set xs. refs x) (in_series ms)"
    using Cons by simp
  show ?case
    unfolding creates_def
  proof (intro allI impI)
    fix s r s'
    assume run: "in_series (m # ms) s = (r, s')"
    show "(\<exists>vs. objects s' = objects s @ vs \<and> set vs \<subseteq> V) \<and>
        (\<forall>xs. r = Inr xs \<longrightarrow> (\<Union>x\<in>set xs. refs x) \<subseteq> {length (objects s)..<length (objects s')})"
    proof (cases "m s")
      case (Pair r1 s1)
      from createsD [OF m Pair] obtain vs1 where vs1: "objects s1 = objects s @ vs1" "set vs1 \<subseteq> V"
        and r1: "\<forall>x. r1 = Inr x \<longrightarrow> refs x \<subseteq> {length (objects s)..<length (objects s1)}"
        by (elim conjE exE) (rule that, assumption+)
      show ?thesis
      proof (cases r1)
        case (Inl e)
        with run Pair have "r = Inl e" "s' = s1"
          by (simp_all add: bind_def)
        with vs1 show ?thesis by auto
      next
        case (Inr x)
        obtain r2 s2 where rest: "in_series ms s1 = (r2, s2)"
          by (cases "in_series ms s1")
        from createsD [OF ms rest] obtain vs2 where vs2: "objects s2 = objects s1 @ vs2" "set vs2 \<subseteq> V"
          and r2: "\<forall>xs. r2 = Inr xs \<longrightarrow> (\<Union>x\<in>set xs. refs x) \<subseteq> {length (objects s1)..<length (objects s2)}"
          by (elim conjE exE) (rule that, assumption+)
        have grow: "objects s2 = objects s @ (vs1 @ vs2)" "set (vs1 @ vs2) \<subseteq> V"
          using vs1 vs2 by simp_all
        show ?thesis
        proof (cases r2)
          case (Inl e)
          with run Pair Inr rest have "r = Inl e" "s' = s2"
            by (simp_all add: bind_def)
          with grow show ?thesis by blast
        next
          case xs: (Inr xs)
          with run Pair Inr rest have r: "r = Inr (x # xs)" and s': "s' = s2"
            by (simp_all add: bind_def return_def)
          from r1 Inr have "refs x \<subseteq> {length (objects s)..<length (objects s1)}" by simp
          moreover from r2 xs have "(\<Union>x\<in>set xs. refs x) \<subseteq> {length (objects s1)..<length (objects s2)}"
            by simp
          moreover have "length (objects s) \<le> length (objects s1)" "length (objects s1) \<le> length (objects s2)"
            using vs1 vs2 by simp_all
          ultimately have "(\<Union>y\<in>set (x # xs). refs y) \<subseteq> {length (objects s)..<length (objects s2)}"
            by (auto simp: subset_iff)
          with r s' grow show ?thesis by blast
        qed
      qed
    qed
  qed
qed

lemma gather_values:
  "gather futures finished results = Some out \<Longrightarrow>
   \<forall>x\<in>set out. x \<in> set results \<or> (\<exists>i\<in>set finished. \<exists>v. futures ! i = Completed v \<and> x = Inr v)"
proof (induction finished arbitrary: results)
  case Nil
  then show ?case by simp
next
  case (Cons i finished)
  from Cons.prems obtain v where v: "futures ! i = Completed v"
    and rest: "gather futures finished (results[i := Inr v]) = Some out"
    by (cases "futures ! i") simp_all
  show ?case
  proof
    fix x assume "x \<in> set out"
    with Cons.IH [OF rest] have "x \<in> set (results[i := Inr v]) \<or>
        (\<exists>j\<in>set finished. \<exists>w. futures ! j = Completed w \<and> x = Inr w)"
      by blast
    moreover have "x \<in> set (results[i := Inr v]) \<Longrightarrow> x = Inr v \<or> x \<in> set results"
      using set_update_subset_insert [of results i "Inr v"] by auto
    ultimately show "x \<in> set results \<or>
        (\<exists>j\<in>set (i # finished). \<exists>w. futures ! j = Completed w \<and> x = Inr w)"
      using v by auto
  qed
qed

lemma pickle_new_objects:
  "new_objects prediction s = (Inr t, s') \<Longrightarrow> pickle_transcript t (objects s') = prediction"
proof (cases prediction)
  case (Entities es)
  assume "new_objects prediction s = (Inr t, s')"
  with Entities have t: "t = Plain [length (objects s)..<length (objects s) + length es]"
    and s': "objects s' = objects s @ es"
    by (auto simp: new_objects_run)
  have "map (\<lambda>a. (objects s @ es) ! a) [length (objects s)..<length (objects s) + length es] = es"
    by (rule nth_equalityI) (simp_all add: nth_append)
  with t s' Entities show ?thesis
    by (simp add: pickle_transcript_def)
next
  case (ScoredEntities pairs)
  assume "new_objects prediction s = (Inr t, s')"
  with ScoredEntities have t: "t = Scored (zip [length (objects s)..<length (objects s) + length pairs] (map snd pairs))"
    and s': "objects s' = objects s @ map fst pairs"
    by (auto simp: new_objects_run)
  have "map (\<lambda>(a, score). ((objects s @ map fst pairs) ! a, score))
          (zip [length (objects s)..<length (objects s) + length pairs] (map snd pairs)) = pairs"
    by (rule nth_equalityI) (simp_all add: nth_append)
  with t s' ScoredEntities show ?thesis
    by (simp add: pickle_transcript_def)
qed

lemma worker_recognize_query:
  "worker (recognize_query recognizer d verbose) pickle_transcript s status q = Completed v \<Longrightarrow>
   v = predict_entities recognizer d verbose q"
proof (cases status)
  case (Completed u)
  let ?s = "s\<lparr>calls := calls s @ [(EntityRecognizer, if verbose then PredictProba else Predict)]\<rparr>"
  assume w: "worker (recognize_query recognizer d verbose) pickle_transcript s status q = Completed v"
  have rq: "recognize_query recognizer d verbose q s =
      new_objects (predict_entities recognizer d verbose q) ?s"
    by (simp add: recognize_query_def bind_def consult_def)
  obtain t s' where n: "new_objects (predict_entities recognizer d verbose q) ?s = (Inr t, s')"
    by (simp add: new_objects_run)
  from pickle_new_objects [OF n] w Completed rq n show ?thesis
    by (simp add: worker_def)
qed (simp_all add: worker_def)

lemma creates_recognition_batch:
  assumes V: "\<forall>q\<in>set queries. set (entities_of (predict_entities recognizer d verbose q)) \<subseteq> V"
    and run: "consistent run (length queries)"
  shows "creates V all_refs
     (process_list_run run (recognize_query recognizer d verbose) pickle_transcript new_objects
        queries)"
proof -
  let ?func = "recognize_query recognizer d verbose"
  have refs: "all_refs = (\<lambda>ts. \<Union>t\<in>set ts. set (refs_of t))"
    by (rule ext) (simp add: all_refs_def)
  have "creates V (\<lambda>t. set (refs_of t)) m" if "m \<in> set (map ?func queries)" for m
  proof -
    from that obtain q where "q \<in> set queries" "m = ?func q" by auto
    with V show ?thesis
      by (simp add: creates_recognize_query)
  qed
  then have serial: "creates V all_refs (in_series (map ?func queries))"
    unfolding refs by (rule creates_in_series)
  show ?thesis
    unfolding creates_def
  proof (intro allI impI)
    fix s r s'
    assume p: "process_list_run run ?func pickle_transcript new_objects queries s = (r, s')"
    let ?goal = "(\<exists>vs. objects s' = objects s @ vs \<and> set vs \<subseteq> V) \<and>
        (\<forall>x. r = Inr x \<longrightarrow> all_refs x \<subseteq> {length (objects s)..<length (objects s')})"
    let ?restarted = "s\<lparr>pool := restart_subprocesses (pool s)\<rparr>"
    have fallback: ?goal if "in_series (map ?func queries) ?restarted = (r, s')"
      using createsD [OF serial that] by simp
    show ?goal
    proof (cases "pool s")
      case None
      with p have "in_series (map ?func queries) s = (r, s')"
        by (simp add: process_list_run_def)
      from createsD [OF serial this] show ?thesis .
    next
      case (Some pl)
      show ?thesis
      proof (cases run)
        case SubmitRaised
        with p Some have "in_series (map ?func queries) ?restarted = (r, s')"
          by (simp add: process_list_run_def)
        then show ?thesis by (rule fallback)
      next
        case (Waited statuses finished)
        let ?futures = "map (\<lambda>(status, item). worker ?func pickle_transcript s status item)
                          (zip statuses queries)"
        from run Waited have len: "length statuses = length queries"
          and fin: "\<forall>i\<in>set finished. i < length queries"
          by (simp_all add: consistent_def)
        show ?thesis
        proof (cases "try_pool (Waited ?futures finished) queries")
          case None
          with p Some Waited have "in_series (map ?func queries) ?restarted = (r, s')"
            by (simp add: process_list_run_def)
          then show ?thesis by (rule fallback)
        next
          case results: (Some results)
          let ?unp = "\<lambda>r. case r of Inr v \<Rightarrow> new_objects v | Inl item \<Rightarrow> raise TypeError"
          from p Some Waited results have unpickled: "in_series (map ?unp results) s = (r, s')"
            by (simp add: process_list_run_def)
          from results have g: "gather ?futures finished (map Inl queries) = Some results"
            by (simp split: if_splits)
          have "creates V (\<lambda>t. set (refs_of t)) m" if "m \<in> set (map ?unp results)" for m
          proof -
            from that obtain x where x: "x \<in> set results" "m = ?unp x" by auto
            from gather_values [OF g] x(1)
            consider "x \<in> set (map Inl queries)"
              | i v where "i \<in> set finished" "?futures ! i = Completed v" "x = Inr v"
              by blast
            then show ?thesis
            proof cases
              case 1
              then obtain item where "x = Inl item" by auto
              with x(2) show ?thesis by (simp add: creates_raise)
            next
              case 2
              with fin len have i: "i < length queries" "i < length statuses" by simp_all
              then have "?futures ! i = worker ?func pickle_transcript s (statuses ! i) (queries ! i)"
                by simp
              with 2(2) have "v = predict_entities recognizer d verbose (queries ! i)"
                using worker_recognize_query by metis
              with V i(1) have "set (entities_of v) \<subseteq> V" by simp
              from creates_new_objects [OF this] 2(3) x(2) show ?thesis by simp
            qed
          qed
          then have "creates V all_refs (in_series (map ?unp results))"
            unfolding refs by (rule creates_in_series)
          from createsD [OF this unpickled] show ?thesis .
        qed
      qed
    qed
  qed
qed

lemma entities_of_recognizable:
  assumes "tier p = IntentProcessor recognizer parser nbest" "q \<in> set queries"
  shows "set (entities_of (predict_entities recognizer d verbose q)) \<subseteq> recognizable p queries d"
  using assms by (auto simp: recognizable_def predict_entities_def)

lemma creates_recognize_entities:
  assumes t: "tier p = IntentProcessor recognizer parser nbest"
    and run: "consistent run (length queries)"
  shows "creates (recognizable p queries d) all_refs (recognize_entities p run queries d verbose)"
proof (cases nbest)
  case True
  have "\<forall>q\<in>set queries. set (entities_of (predict_entities recognizer d verbose q))
          \<subseteq> recognizable p queries d"
    using entities_of_recognizable [OF t] by blast
  from creates_recognition_batch [OF this run] t True show ?thesis
    by (simp add: recognize_entities_def)
next
  case False
  show ?thesis
  proof (cases queries)
    case Nil
    with t False show ?thesis
      by (simp add: recognize_entities_def creates_raise)
  next
    case (Cons q qs)
    have c: "creates (recognizable p queries d) (\<lambda>t. set (refs_of t))
        (recognize_query recognizer d verbose q)"
      by (rule creates_recognize_query) (rule entities_of_recognizable [OF t], simp add: Cons)
    have "creates (recognizable p queries d) all_refs
        (bind (recognize_query recognizer d verbose q) (\<lambda>t. return [t]))"
      unfolding creates_def
    proof (intro allI impI)
      fix s r s'
      assume b: "bind (recognize_query recognizer d verbose q) (\<lambda>t. return [t]) s = (r, s')"
      obtain r1 s1 where 1: "recognize_query recognizer d verbose q s = (r1, s1)"
        by (cases "recognize_query recognizer d verbose q s")
      with b have s1: "s1 = s'" and r: "r = map_sum id (\<lambda>t. [t]) r1"
        by (cases r1; simp add: bind_def return_def)+
      from createsD [OF c 1] s1 r
      show "(\<exists>vs. objects s' = objects s @ vs \<and> set vs \<subseteq> recognizable p queries d) \<and>
          (\<forall>x. r = Inr x \<longrightarrow> all_refs x \<subseteq> {length (objects s)..<length (objects s')})"
        by (cases r1) (auto simp: all_refs_def)
    qed
    with t False Cons show ?thesis
      by (simp add: recognize_entities_def)
  qed
qed

lemma get_pred_entities_refs:
  assumes "get_pred_entities p run queries d verbose s = (Inr (conf, ts), s')"
  shows "\<exists>entities. recognize_entities p run queries d verbose s = (Inr entities, s')
           \<and> all_refs ts \<subseteq> all_refs entities"
proof -
  from bind_Inr [OF assms [unfolded get_pred_entities_def]]
  obtain entities s1 where rec: "recognize_entities p run queries d verbose s = (Inr entities, s1)"
    and rest: "(case entities of
         [] \<Rightarrow> raise IndexError
       | pred_entities # _ \<Rightarrow>
           if verbose \<and> length (refs_of pred_entities) > 0 then
             (case pred_entities of
                Scored pairs \<Rightarrow>
                  bind get_objects (\<lambda>h.
                  return (map (\<lambda>(a, score). (etype (entity (h ! a)), score)) pairs,
                          [Plain (map fst pairs)]))
              | Plain refs \<Rightarrow> raise TypeError)
           else return ([], entities)) s1 = (Inr (conf, ts), s')"
    by blast
  have "s1 = s' \<and> all_refs ts \<subseteq> all_refs entities"
  proof (cases entities)
    case Nil
    with rest show ?thesis by (simp add: raise_def)
  next
    case (Cons pred_entities more)
    show ?thesis
    proof (cases "verbose \<and> length (refs_of pred_entities) > 0")
      case False
      with rest Cons show ?thesis
        by (auto simp: return_def)
    next
      case True
      show ?thesis
      proof (cases pred_entities)
        case (Plain refs)
        with rest Cons True show ?thesis by (simp add: raise_def)
      next
        case (Scored pairs)
        with rest Cons True have "s1 = s'" "ts = [Plain (map fst pairs)]"
          by (simp_all add: bind_def get_objects_def return_def)
        with Cons Scored show ?thesis
          by (simp add: all_refs_def)
      qed
    qed
  qed
  with rec show ?thesis by blast
qed

lemma grouped_members:
  assumes "grouped deref C refs groups" "g \<in> set groups"
  shows "set g \<subseteq> set refs \<union> C"
proof -
  from assms obtain i where i: "i < length refs" "g = groups ! i"
    by (auto simp: grouped_def in_set_conv_nth)
  with assms(1) have ne: "g \<noteq> []" and h: "hd g = refs ! i" and tl: "set (tl g) \<subseteq> C"
    by (auto simp: grouped_def)
  from ne have "set g = insert (hd g) (set (tl g))"
    by (cases g) simp_all
  with h tl i(1) show ?thesis by auto
qed

lemma align_recognized_grouped:
  assumes "align_recognized nbest ts s = (Inr aligned, s')"
  shows "s' = s \<and> (\<exists>reference rest. ts = reference # rest
      \<and> grouped (\<lambda>a. objects s ! a) (\<Union>(set ` set (map refs_of rest))) (refs_of reference)
           aligned)"
proof (cases ts)
  case Nil
  with assms show ?thesis
    by (simp add: align_recognized_def get_objects_bind raise_def)
next
  case (Cons reference rest)
  let ?deref = "\<lambda>a. objects s ! a"
  from align_entities_grouped [of ?deref nbest "refs_of reference" "map refs_of rest"]
  obtain groups where al: "align_entities ?deref nbest (map refs_of ts) = Inr groups"
    and gr: "grouped ?deref (\<Union>(set ` set (map refs_of rest))) (refs_of reference) groups"
    using Cons by auto
  note ts = Cons
  have "s' = s \<and> aligned = groups"
  proof (cases reference)
    case (Plain refs)
    with assms ts al show ?thesis
      by (simp add: align_recognized_def get_objects_bind raise_def return_def split: if_splits)
  next
    case (Scored pairs)
    show ?thesis
    proof (cases pairs)
      case Nil
      with assms ts al Scored show ?thesis
        by (simp add: align_recognized_def get_objects_bind raise_def return_def
            split: if_splits)
    next
      case (Cons pair more)
      with assms ts Scored show ?thesis
        by (simp add: align_recognized_def get_objects_bind raise_def)
    qed
  qed
  with gr ts show ?thesis by blast
qed

lemma align_recognized_refs:
  assumes "align_recognized nbest ts s = (Inr aligned, s')"
  shows "s' = s \<and> (\<forall>g\<in>set aligned. set g \<subseteq> all_refs ts)"
proof -
  from align_recognized_grouped [OF assms]
  obtain reference rest where s: "s' = s" and ts: "ts = reference # rest"
    and gr: "grouped (\<lambda>a. objects s ! a) (\<Union>(set ` set (map refs_of rest))) (refs_of reference)
           aligned"
    by blast
  have sub: "set (refs_of reference) \<union> \<Union>(set ` set (map refs_of rest)) \<subseteq> all_refs ts"
    using ts by (auto simp: all_refs_def)
  with grouped_members [OF gr] s show ?thesis by blast
qed

lemma keepsD:
  "keeps n P m \<Longrightarrow> n \<le> length (objects s) \<Longrightarrow> m s = (r, s') \<Longrightarrow>
   length (objects s) \<le> length (objects s') \<and>
   (\<forall>a<n. objects s' ! a = objects s ! a) \<and> (\<forall>x. r = Inr x \<longrightarrow> P x)"
  unfolding keeps_def by blast

lemma intent_process_query_steps:
  assumes run: "intent_process_query p runs query d verbose s = (Inr pq, s')"
  shows "\<exists>recognizer parser nbest conf entities s1 aligned processed role_conf.
      tier p = IntentProcessor recognizer parser nbest
    \<and> get_pred_entities p (recognition_run runs) (queries_of query) d verbose s
        = (Inr (conf, entities), s1)
    \<and> align_recognized nbest entities s1 = (Inr aligned, s1)
    \<and> process_entities p (entities_run runs) (queries_of query) entities aligned verbose s1
        = (Inr (processed, role_conf), s')
    \<and> pq_entities pq = processed
    \<and> (\<forall>ts. nbest_transcripts_entities pq = Some ts \<longrightarrow> ts = entities)
    \<and> (\<forall>gs. nbest_aligned_entities pq = Some gs \<longrightarrow> gs = aligned)"
proof -
  from bind_Inr [OF run [unfolded intent_process_query_def]]
  obtain u s0 where ready: "check_ready p s = (Inr u, s0)"
    and rest: "(case tier p of
         IntentProcessor recognizer parser nbest_transcripts_enabled \<Rightarrow>
           (let using_nbest_transcripts =
                  (case query of Many _ \<Rightarrow> nbest_transcripts_enabled | One _ \<Rightarrow> False);
                queries = (case query of Many qs \<Rightarrow> qs | One q \<Rightarrow> [q]) in
            bind (get_pred_entities p (recognition_run runs) queries d verbose)
              (\<lambda>(entity_confidence, entities).
            bind (align_recognized nbest_transcripts_enabled entities) (\<lambda>aligned_entities.
            bind (process_entities p (entities_run runs) queries entities aligned_entities
                    verbose)
              (\<lambda>(processed_entities, role_confidence).
            case queries of
              [] \<Rightarrow> raise IndexError
            | q # _ \<Rightarrow>
                return
                  \<lparr>pq_query = q,
                   pq_entities = processed_entities,
                   pq_domain = None,
                   pq_intent = None,
                   pq_confidence =
                     (if verbose
                      then no_scores\<lparr>entity_scores := Some entity_confidence,
                                      role_scores := Some role_confidence\<rparr>
                      else no_scores),
                   nbest_transcripts_queries =
                     (if using_nbest_transcripts then Some queries else None),
                   nbest_transcripts_entities =
                     (if using_nbest_transcripts then Some entities else None),
                   nbest_aligned_entities =
                     (if using_nbest_transcripts then Some aligned_entities else None)\<rparr>))))
       | _ \<Rightarrow> raise AttributeError) s0 = (Inr pq, s')"
    by blast
  from ready have s0: "s0 = s"
    by (simp add: check_ready_def raise_def return_def split: if_splits)
  from rest obtain recognizer parser nbest where t: "tier p = IntentProcessor recognizer parser nbest"
    by (cases "tier p") (simp_all add: raise_def)
  let ?using = "case query of Many _ \<Rightarrow> nbest | One _ \<Rightarrow> False"
  let ?queries = "queries_of query"
  let ?result = "\<lambda>entity_confidence entities aligned_entities processed_entities role_confidence q.
      \<lparr>pq_query = q,
       pq_entities = processed_entities,
       pq_domain = None,
       pq_intent = None,
       pq_confidence =
         (if verbose
          then no_scores\<lparr>entity_scores := Some entity_confidence,
                          role_scores := Some role_confidence\<rparr>
          else no_scores),
       nbest_transcripts_queries = (if ?using then Some ?queries else None),
       nbest_transcripts_entities = (if ?using then Some entities else None),
       nbest_aligned_entities = (if ?using then Some aligned_entities else None)\<rparr>"
  have 1: "bind (get_pred_entities p (recognition_run runs) ?queries d verbose)
      (\<lambda>(entity_confidence, entities).
        bind (align_recognized nbest entities) (\<lambda>aligned_entities.
        bind (process_entities p (entities_run runs) ?queries entities aligned_entities verbose)
          (\<lambda>(processed_entities, role_confidence).
            case ?queries of
              [] \<Rightarrow> raise IndexError
            | q # _ \<Rightarrow> return (?result entity_confidence entities aligned_entities
                  processed_entities role_confidence q)))) s = (Inr pq, s')"
    unfolding queries_of_def using rest t s0
    by (simp add: Let_def split del: if_split cong: if_cong)
  from bind_Inr [OF 1] obtain ce s1 where
    g: "get_pred_entities p (recognition_run runs) ?queries d verbose s = (Inr ce, s1)"
    and 2: "(case ce of (entity_confidence, entities) \<Rightarrow>
        bind (align_recognized nbest entities) (\<lambda>aligned_entities.
        bind (process_entities p (entities_run runs) ?queries entities aligned_entities verbose)
          (\<lambda>(processed_entities, role_confidence).
            case ?queries of
              [] \<Rightarrow> raise IndexError
            | q # _ \<Rightarrow> return (?result entity_confidence entities aligned_entities
                  processed_entities role_confidence q)))) s1 = (Inr pq, s')"
    by blast
  obtain conf entities where ce: "ce = (conf, entities)"
    by (cases ce)
  from 2 have 3: "bind (align_recognized nbest entities) (\<lambda>aligned_entities.
        bind (process_entities p (entities_run runs) ?queries entities aligned_entities verbose)
          (\<lambda>(processed_entities, role_confidence).
            case ?queries of
              [] \<Rightarrow> raise IndexError
            | q # _ \<Rightarrow> return (?result conf entities aligned_entities
                  processed_entities role_confidence q))) s1 = (Inr pq, s')"
    by (simp add: ce)
  from bind_Inr [OF 3] obtain aligned s2 where
    a: "align_recognized nbest entities s1 = (Inr aligned, s2)"
    and 4: "bind (process_entities p (entities_run runs) ?queries entities aligned verbose)
          (\<lambda>(processed_entities, role_confidence).
            case ?queries of
              [] \<Rightarrow> raise IndexError
            | q # _ \<Rightarrow> return (?result conf entities aligned
                  processed_entities role_confidence q)) s2 = (Inr pq, s')"
    by blast
  from align_recognized_refs [OF a] have s2: "s2 = s1"
    by simp
  from bind_Inr [OF 4] obtain pr s3 where
    pe: "process_entities p (entities_run runs) ?queries entities aligned verbose s2 = (Inr pr, s3)"
    and 5: "(case pr of (processed_entities, role_confidence) \<Rightarrow>
            case ?queries of
              [] \<Rightarrow> raise IndexError
            | q # _ \<Rightarrow> return (?result conf entities aligned
                  processed_entities role_confidence q)) s3 = (Inr pq, s')"
    by blast
  obtain processed role_conf where pr: "pr = (processed, role_conf)"
    by (cases pr)
  from 5 pr obtain q where s3: "s3 = s'"
    and pq: "pq = ?result conf entities aligned processed role_conf q"
    by (cases ?queries) (auto simp: raise_def return_def)
  from pq have f1: "pq_entities pq = processed"
    and f2: "\<forall>ts. nbest_transcripts_entities pq = Some ts \<longrightarrow> ts = entities"
    and f3: "\<forall>gs. nbest_aligned_entities pq = Some gs \<longrightarrow> gs = aligned"
    by (simp_all split: if_splits)
  from t g [unfolded ce] a [unfolded s2] pe [unfolded s2 s3 pr] f1 f2 f3
  show ?thesis
    by blast
qed

text \<open>
  What role classification and resolution write: the role into the entity of the given
  index, then the resolver's answer for the aligned group; and what a batch of them leaves,
  run in series or by the pool, whose results come back as new objects.
\<close>

lemma process_entity_effect:
  assumes "process_entity ep q processed i verbose t = (Inr (x, c), t')"
  shows "\<exists>rc res f. tier ep = EntityProcessor rc res \<and> i < length processed \<and> x = processed ! i
      \<and> objects t' = (objects t)[x := (objects t ! x)\<lparr>entity := (entity (objects t ! x))\<lparr>role := f\<rparr>\<rparr>]
      \<and> (roles rc \<noteq> [] \<longrightarrow> f \<noteq> None)"
proof -
  from assms have r: "ready ep"
    by (cases "ready ep") (simp_all add: process_entity_def check_ready_not_ready)
  from assms r obtain rc res where t: "tier ep = EntityProcessor rc res"
    by (cases "tier ep") (simp_all add: process_entity_def check_ready_ready raise_def)
  from assms r t have i: "i < length processed"
    by (cases "i < length processed") (simp_all add: process_entity_def check_ready_ready raise_def)
  let ?x = "processed ! i"
  show ?thesis
  proof (cases "roles rc = []")
    case True
    with assms r t i have "x = ?x" "t' = t"
      by (simp_all add: process_entity_def check_ready_ready return_def)
    then have "objects t' = (objects t)[x := (objects t ! x)\<lparr>entity := (entity (objects t ! x))\<lparr>role := role (entity (objects t ! x))\<rparr>\<rparr>]"
      by simp
    with t i True \<open>x = ?x\<close> show ?thesis by blast
  next
    case False
    show ?thesis
    proof (cases verbose)
      case True
      let ?t1 = "t\<lparr>calls := calls t @ [(RoleClassifier, PredictProba)]\<rparr>"
      show ?thesis
      proof (cases "role_predict_proba rc q (map (\<lambda>a. objects ?t1 ! a) processed) i")
        case Nil
        with assms r t i False True show ?thesis
          by (simp add: process_entity_def check_ready_ready consult_bind get_objects_bind
              raise_def Let_def)
      next
        case (Cons top rest)
        obtain ro score where top: "top = (ro, score)" by (cases top)
        from assms r t i False True Cons top
        have "x = ?x" "objects t' = (objects t)[?x := (objects t ! ?x)\<lparr>entity := (entity (objects t ! ?x))\<lparr>role := Some ro\<rparr>\<rparr>]"
          by (auto simp: process_entity_def check_ready_ready consult_bind get_objects_bind
              modify_bind return_def Let_def)
        with t i show ?thesis by blast
      qed
    next
      case nv: False
      let ?t1 = "t\<lparr>calls := calls t @ [(RoleClassifier, Predict)]\<rparr>"
      from assms r t i False nv
      have "x = ?x" "objects t' = (objects t)[?x := (objects t ! ?x)\<lparr>entity := (entity (objects t ! ?x))\<lparr>role :=
          Some (role_predict rc q (map (\<lambda>a. objects ?t1 ! a) processed) i)\<rparr>\<rparr>]"
        by (auto simp: process_entity_def check_ready_ready consult_bind get_objects_bind
            modify_bind return_def Let_def)
      with t i show ?thesis by blast
    qed
  qed
qed

lemma resolve_entity_effect:
  assumes "resolve_entity ep x (Some (g # gs)) t = (Inr y, t')"
  shows "\<exists>rc res. tier ep = EntityProcessor rc res \<and> y = x
      \<and> objects t' = (objects t)[x := (objects t ! x)\<lparr>entity := (entity (objects t ! x))\<lparr>resolved :=
             res (map (\<lambda>b. entity (objects t ! b)) (g # gs))\<rparr>\<rparr>]"
proof -
  from assms have r: "ready ep"
    by (cases "ready ep") (simp_all add: resolve_entity_def check_ready_not_ready)
  from assms r obtain rc res where t: "tier ep = EntityProcessor rc res"
    by (cases "tier ep") (simp_all add: resolve_entity_def check_ready_ready raise_def)
  from assms r t show ?thesis
    by (auto simp: resolve_entity_def check_ready_ready get_objects_bind consult_bind
        modify_bind return_def Let_def)
qed

lemma classify_and_resolve_entities_effect:
  assumes run: "classify_and_resolve_entities p i q processed aligned verbose t = (Inr (x, c), t')"
    and valid: "processed ! i < length (objects t)"
    and apart: "processed ! i \<notin> set (aligned ! i)"
    and nonempty: "aligned ! i \<noteq> []"
  shows "x = processed ! i \<and> length (objects t') = length (objects t)
     \<and> (\<forall>a. a \<noteq> x \<longrightarrow> objects t' ! a = objects t ! a)
     \<and> span (objects t' ! x) = span (objects t ! x)
     \<and> etype (entity (objects t' ! x)) = etype (entity (objects t ! x))
     \<and> etext (entity (objects t' ! x)) = etext (entity (objects t ! x))
     \<and> (case map_of (children p) (etype (entity (objects t ! x))) of
          None \<Rightarrow> False
        | Some entity_processor \<Rightarrow>
            (case tier entity_processor of
               EntityProcessor role_classifier entity_resolver \<Rightarrow>
                 (roles role_classifier \<noteq> [] \<longrightarrow> role (entity (objects t' ! x)) \<noteq> None)
                 \<and> resolved (entity (objects t' ! x)) =
                     entity_resolver (map (\<lambda>b. entity (objects t ! b)) (aligned ! i))
             | _ \<Rightarrow> False))"
proof -
  let ?x = "processed ! i"
  let ?ty = "etype (entity (objects t ! ?x))"
  from run have i: "i < length processed"
    by (cases "i < length processed") (simp_all add: classify_and_resolve_entities_def raise_def)
  from run i obtain ep where ep: "map_of (children p) ?ty = Some ep"
    by (cases "map_of (children p) ?ty")
      (simp_all add: classify_and_resolve_entities_def get_objects_bind raise_def)
  from run i ep have 1: "bind (process_entity ep q processed i verbose)
      (\<lambda>(ent, role_confidence).
         bind get_objects (\<lambda>h.
           case map_of (children p) (etype (entity (h ! ent))) of
             None \<Rightarrow> raise KeyError
           | Some entity_processor \<Rightarrow>
               if i < length aligned then
                 bind (resolve_entity entity_processor ent (Some (aligned ! i)))
                   (\<lambda>ent. return (ent, role_confidence))
               else raise IndexError)) t = (Inr (x, c), t')"
    by (simp add: classify_and_resolve_entities_def get_objects_bind)
  from bind_Inr [OF 1] obtain xc t1 where pe: "process_entity ep q processed i verbose t = (Inr xc, t1)"
    and 2: "(case xc of (ent, role_confidence) \<Rightarrow>
         bind get_objects (\<lambda>h.
           case map_of (children p) (etype (entity (h ! ent))) of
             None \<Rightarrow> raise KeyError
           | Some entity_processor \<Rightarrow>
               if i < length aligned then
                 bind (resolve_entity entity_processor ent (Some (aligned ! i)))
                   (\<lambda>ent. return (ent, role_confidence))
               else raise IndexError)) t1 = (Inr (x, c), t')"
    by blast
  obtain x1 c1 where xc: "xc = (x1, c1)" by (cases xc)
  from process_entity_effect [OF pe [unfolded xc]]
  obtain rc res f where tier: "tier ep = EntityProcessor rc res"
    and x1: "x1 = ?x"
    and o1: "objects t1 = (objects t)[?x := (objects t ! ?x)\<lparr>entity := (entity (objects t ! ?x))\<lparr>role := f\<rparr>\<rparr>]"
    and f: "roles rc \<noteq> [] \<longrightarrow> f \<noteq> None"
    by blast
  from o1 valid have ty1: "etype (entity (objects t1 ! ?x)) = ?ty"
    by simp
  obtain g gs where group: "aligned ! i = g # gs"
    using nonempty by (cases "aligned ! i") simp_all
  from 2 xc x1 ty1 ep have la: "i < length aligned"
    by (cases "i < length aligned") (simp_all add: get_objects_bind raise_def)
  from 2 xc x1 ty1 ep la group
  have 3: "bind (resolve_entity ep ?x (Some (g # gs))) (\<lambda>ent. return (ent, c1)) t1 = (Inr (x, c), t')"
    by (simp add: get_objects_bind)
  from bind_Inr [OF 3] obtain y t2 where re: "resolve_entity ep ?x (Some (g # gs)) t1 = (Inr y, t2)"
    and 4: "return (y, c1) t2 = (Inr (x, c), t')"
    by blast
  from 4 have xy: "x = y" and t2: "t2 = t'"
    by (simp_all add: return_def)
  from resolve_entity_effect [OF re] tier
  have y: "y = ?x"
    and o2: "objects t2 = (objects t1)[?x := (objects t1 ! ?x)\<lparr>entity := (entity (objects t1 ! ?x))\<lparr>resolved :=
             res (map (\<lambda>b. entity (objects t1 ! b)) (g # gs))\<rparr>\<rparr>]"
    by simp_all
  have same: "map (\<lambda>b. entity (objects t1 ! b)) (g # gs) = map (\<lambda>b. entity (objects t ! b)) (g # gs)"
  proof (rule map_cong [OF refl])
    fix b assume "b \<in> set (g # gs)"
    with apart group have "b \<noteq> ?x" by auto
    then show "entity (objects t1 ! b) = entity (objects t ! b)"
      by (simp add: o1)
  qed
  let ?final = "(objects t ! ?x)\<lparr>entity := (entity (objects t ! ?x))\<lparr>role := f,
      resolved := res (map (\<lambda>b. entity (objects t ! b)) (g # gs))\<rparr>\<rparr>"
  have n1: "objects t1 ! ?x = (objects t ! ?x)\<lparr>entity := (entity (objects t ! ?x))\<lparr>role := f\<rparr>\<rparr>"
    using valid by (simp add: o1)
  have "objects t2 = (objects t1)[?x := ?final]"
    unfolding o2 same n1 by simp
  then have o': "objects t' = (objects t)[?x := ?final]"
    by (simp add: t2 o1)
  have c1: "x = ?x" using xy y by simp
  have c2: "length (objects t') = length (objects t)" by (simp add: o')
  have c3: "\<forall>a. a \<noteq> x \<longrightarrow> objects t' ! a = objects t ! a"
    by (simp add: o' c1)
  from valid have at: "objects t' ! ?x = ?final"
    by (simp add: o')
  have c4: "span (objects t' ! x) = span (objects t ! x)"
    and c5: "etype (entity (objects t' ! x)) = etype (entity (objects t ! x))"
    and c6: "etext (entity (objects t' ! x)) = etext (entity (objects t ! x))"
    by (simp_all add: c1 at)
  have c7: "(case map_of (children p) (etype (entity (objects t ! x))) of
          None \<Rightarrow> False
        | Some entity_processor \<Rightarrow>
            (case tier entity_processor of
               EntityProcessor role_classifier entity_resolver \<Rightarrow>
                 (roles role_classifier \<noteq> [] \<longrightarrow> role (entity (objects t' ! x)) \<noteq> None)
                 \<and> resolved (entity (objects t' ! x)) =
                     entity_resolver (map (\<lambda>b. entity (objects t ! b)) (aligned ! i))
             | _ \<Rightarrow> False))"
    using ep tier f group by (simp add: c1 at)
  from c1 c2 c3 c4 c5 c6 c7 show ?thesis
    by (intro conjI)
qed

lemma processed_copy_cong:
  assumes "\<forall>b\<in>set members. h ! b = h' ! b"
  shows "processed_copy p h members original c = processed_copy p h' members original c"
proof -
  have eq: "map (\<lambda>b. entity (h ! b)) members = map (\<lambda>b. entity (h' ! b)) members"
    by (rule map_cong) (simp_all add: assms)
  show ?thesis
    unfolding processed_copy_def eq by (rule refl)
qed

lemma classify_and_resolve_entities_copy:
  assumes run: "classify_and_resolve_entities p i q processed aligned verbose t = (Inr r, t')"
    and valid: "processed ! i < length (objects t)"
    and apart: "processed ! i \<notin> set (aligned ! i)"
    and nonempty: "aligned ! i \<noteq> []"
  shows "fst r = processed ! i \<and> length (objects t') = length (objects t)
     \<and> (\<forall>a. a \<noteq> processed ! i \<longrightarrow> objects t' ! a = objects t ! a)
     \<and> processed_copy p (objects t) (aligned ! i) (objects t ! (processed ! i))
          (objects t' ! (processed ! i))"
proof -
  obtain x c where r: "r = (x, c)" by (cases r)
  note eff = classify_and_resolve_entities_effect [OF run [unfolded r] valid apart nonempty]
  from eff have x: "x = processed ! i" by blast
  from eff have len: "length (objects t') = length (objects t)" by blast
  from eff have frame: "\<forall>a. a \<noteq> x \<longrightarrow> objects t' ! a = objects t ! a" by blast
  from eff have f1: "span (objects t' ! x) = span (objects t ! x)" by blast
  from eff have f2: "etype (entity (objects t' ! x)) = etype (entity (objects t ! x))" by blast
  from eff have f3: "etext (entity (objects t' ! x)) = etext (entity (objects t ! x))" by blast
  from eff have f4: "(case map_of (children p) (etype (entity (objects t ! x))) of
          None \<Rightarrow> False
        | Some entity_processor \<Rightarrow>
            (case tier entity_processor of
               EntityProcessor role_classifier entity_resolver \<Rightarrow>
                 (roles role_classifier \<noteq> [] \<longrightarrow> role (entity (objects t' ! x)) \<noteq> None)
                 \<and> resolved (entity (objects t' ! x)) =
                     entity_resolver (map (\<lambda>b. entity (objects t ! b)) (aligned ! i))
             | _ \<Rightarrow> False))" by blast
  have "processed_copy p (objects t) (aligned ! i) (objects t ! x) (objects t' ! x)"
    unfolding processed_copy_def f2 using f1 f3 f4
    by - (intro conjI, assumption, rule refl, assumption, assumption)
  with x len frame r show ?thesis
    by simp
qed

lemma in_series_Cons:
  assumes "in_series (m # ms) t = (Inr rs, t')"
  obtains x xs t1 where "m t = (Inr x, t1)" "in_series ms t1 = (Inr xs, t')" "rs = x # xs"
proof -
  from assms have "bind m (\<lambda>x. bind (in_series ms) (\<lambda>xs. return (x # xs))) t = (Inr rs, t')"
    by simp
  from bind_Inr [OF this] obtain x t1 where 1: "m t = (Inr x, t1)"
    and 2: "bind (in_series ms) (\<lambda>xs. return (x # xs)) t1 = (Inr rs, t')"
    by blast
  from bind_Inr [OF 2] obtain xs t2 where 3: "in_series ms t1 = (Inr xs, t2)"
    and 4: "return (x # xs) t2 = (Inr rs, t')"
    by blast
  from 4 have "rs = x # xs" "t2 = t'"
    by (simp_all add: return_def)
  with 1 3 that show ?thesis by blast
qed

lemma post_processing_in_series:
  assumes groups: "\<forall>i<k. aligned ! i \<noteq> [] \<and> (\<forall>b\<in>set (aligned ! i). b < n)"
    and copies: "processed = [n..<n + k]"
  shows "in_series (map (\<lambda>idx. classify_and_resolve_entities p idx q processed aligned verbose)
            idxs) t = (Inr rs, t')
     \<Longrightarrow> distinct idxs \<Longrightarrow> \<forall>i\<in>set idxs. i < k \<Longrightarrow> n + k \<le> length (objects t)
     \<Longrightarrow> length rs = length idxs \<and> length (objects t') = length (objects t)
        \<and> (\<forall>a. a \<notin> (\<lambda>i. n + i) ` set idxs \<longrightarrow> objects t' ! a = objects t ! a)
        \<and> (\<forall>j<length idxs. fst (rs ! j) = n + idxs ! j
              \<and> processed_copy p (objects t) (aligned ! (idxs ! j)) (objects t ! (n + idxs ! j))
                   (objects t' ! (n + idxs ! j)))"
proof (induction idxs arbitrary: t rs)
  case Nil
  then show ?case
    by (simp add: return_def)
next
  case (Cons i rest)
  let ?func = "\<lambda>idx. classify_and_resolve_entities p idx q processed aligned verbose"
  from Cons.prems(1) have "in_series (?func i # map ?func rest) t = (Inr rs, t')"
    by simp
  then obtain r xs t1 where step: "?func i t = (Inr r, t1)"
    and more: "in_series (map ?func rest) t1 = (Inr xs, t')"
    and rs: "rs = r # xs"
    by (rule in_series_Cons)
  from Cons.prems(3) have ik: "i < k" by simp
  with copies have pi: "processed ! i = n + i"
    by simp
  from groups ik have ne: "aligned ! i \<noteq> []" and below: "\<forall>b\<in>set (aligned ! i). b < n"
    by simp_all
  from below have apart: "processed ! i \<notin> set (aligned ! i)"
    unfolding pi by auto
  from ik Cons.prems(4) have valid: "processed ! i < length (objects t)"
    unfolding pi by simp
  from classify_and_resolve_entities_copy [OF step valid apart ne]
  have r: "fst r = n + i" and len1: "length (objects t1) = length (objects t)"
    and frame1: "\<forall>a. a \<noteq> n + i \<longrightarrow> objects t1 ! a = objects t ! a"
    and copy1: "processed_copy p (objects t) (aligned ! i) (objects t ! (n + i)) (objects t1 ! (n + i))"
    unfolding pi by simp_all
  from Cons.prems(2) have d: "distinct rest" and inot: "i \<notin> set rest"
    by simp_all
  from Cons.prems(3) have restk: "\<forall>j\<in>set rest. j < k" by simp
  from Cons.prems(4) len1 have l1: "n + k \<le> length (objects t1)" by simp
  from Cons.IH [OF more d restk l1]
  have lx: "length xs = length rest" and len2: "length (objects t') = length (objects t1)"
    and frame2: "\<forall>a. a \<notin> (\<lambda>i. n + i) ` set rest \<longrightarrow> objects t' ! a = objects t1 ! a"
    and copy2: "\<forall>j<length rest. fst (xs ! j) = n + rest ! j
        \<and> processed_copy p (objects t1) (aligned ! (rest ! j)) (objects t1 ! (n + rest ! j))
             (objects t' ! (n + rest ! j))"
    by simp_all
  have c1: "length rs = length (i # rest)"
    by (simp add: rs lx)
  have c2: "length (objects t') = length (objects t)"
    by (simp add: len1 len2)
  have c3: "\<forall>a. a \<notin> (\<lambda>i. n + i) ` set (i # rest) \<longrightarrow> objects t' ! a = objects t ! a"
    using frame1 frame2 by auto
  have c4: "\<forall>j<length (i # rest). fst (rs ! j) = n + (i # rest) ! j
        \<and> processed_copy p (objects t) (aligned ! ((i # rest) ! j)) (objects t ! (n + (i # rest) ! j))
             (objects t' ! (n + (i # rest) ! j))"
  proof (intro allI impI)
    fix j assume j: "j < length (i # rest)"
    show "fst (rs ! j) = n + (i # rest) ! j
        \<and> processed_copy p (objects t) (aligned ! ((i # rest) ! j)) (objects t ! (n + (i # rest) ! j))
             (objects t' ! (n + (i # rest) ! j))"
    proof (cases j)
      case 0
      from inot have "n + i \<notin> (\<lambda>i. n + i) ` set rest" by auto
      with frame2 have "objects t' ! (n + i) = objects t1 ! (n + i)" by simp
      with copy1 r 0 rs show ?thesis by simp
    next
      case (Suc j')
      with j have j': "j' < length rest" by simp
      let ?i' = "rest ! j'"
      from j' have mem: "?i' \<in> set rest" by simp
      with inot have neq: "?i' \<noteq> i" by auto
      from mem restk have "?i' < k" by simp
      with groups have below': "\<forall>b\<in>set (aligned ! ?i'). b < n" by simp
      have same: "\<forall>b\<in>set (aligned ! ?i'). objects t1 ! b = objects t ! b"
      proof
        fix b assume "b \<in> set (aligned ! ?i')"
        with below' have "b \<noteq> n + i" by auto
        with frame1 show "objects t1 ! b = objects t ! b" by simp
      qed
      from neq frame1 have start: "objects t1 ! (n + ?i') = objects t ! (n + ?i')" by simp
      from copy2 j' have fx: "fst (xs ! j') = n + ?i'"
        and pc0: "processed_copy p (objects t1) (aligned ! ?i') (objects t1 ! (n + ?i'))
             (objects t' ! (n + ?i'))"
        by simp_all
      from pc0 have "processed_copy p (objects t) (aligned ! ?i') (objects t ! (n + ?i'))
             (objects t' ! (n + ?i'))"
        unfolding start processed_copy_cong [OF same] .
      with fx Suc rs show ?thesis
        by simp
    qed
  qed
  from c1 c2 c3 c4 show ?case
    by (intro conjI)
qed

lemma gather_positions:
  "gather futures finished results = Some out \<Longrightarrow>
   length out = length results \<and>
   (\<forall>i<length results. out ! i = results ! i \<or> (\<exists>v. futures ! i = Completed v \<and> out ! i = Inr v))"
proof (induction finished arbitrary: results)
  case Nil
  then show ?case by simp
next
  case (Cons i finished)
  from Cons.prems obtain v where v: "futures ! i = Completed v"
    and rest: "gather futures finished (results[i := Inr v]) = Some out"
    by (cases "futures ! i") simp_all
  from Cons.IH [OF rest] have len: "length out = length results"
    and pos: "\<forall>j<length results. out ! j = results[i := Inr v] ! j
        \<or> (\<exists>w. futures ! j = Completed w \<and> out ! j = Inr w)"
    by simp_all
  have "out ! j = results ! j \<or> (\<exists>w. futures ! j = Completed w \<and> out ! j = Inr w)"
    if j: "j < length results" for j
  proof (cases "j = i")
    case True
    with pos j v show ?thesis by auto
  next
    case False
    with pos j show ?thesis by auto
  qed
  with len show ?case by simp
qed

lemma unpickle_entity_run:
  "unpickle_entity v s = (Inr (length (objects s), snd v), s\<lparr>objects := objects s @ [fst v]\<rparr>)"
  by (simp add: unpickle_entity_def bind_def allocate_def return_def)

lemma unpickled_in_series:
  "in_series (map (\<lambda>r. case r of Inr v \<Rightarrow> unpickle_entity v | Inl item \<Rightarrow> raise TypeError)
      results) s = (Inr rc, s')
   \<Longrightarrow> length rc = length results
     \<and> (\<forall>a<length (objects s). objects s' ! a = objects s ! a)
     \<and> (\<forall>j<length results. \<exists>v. results ! j = Inr v
           \<and> fst (rc ! j) = length (objects s) + j
           \<and> objects s' ! (length (objects s) + j) = fst v)"
proof (induction results arbitrary: s rc)
  case Nil
  then show ?case by (simp add: return_def)
next
  case (Cons x xs)
  let ?unp = "\<lambda>r. case r of Inr v \<Rightarrow> unpickle_entity v | Inl item \<Rightarrow> raise TypeError"
  from Cons.prems have "in_series (?unp x # map ?unp xs) s = (Inr rc, s')"
    by simp
  then obtain r rs s1 where first: "?unp x s = (Inr r, s1)"
    and more: "in_series (map ?unp xs) s1 = (Inr rs, s')"
    and rc: "rc = r # rs"
    by (rule in_series_Cons)
  from first obtain v where x: "x = Inr v"
    by (cases x) (simp_all add: raise_def)
  from first x have r: "r = (length (objects s), snd v)"
    and s1: "objects s1 = objects s @ [fst v]"
    by (auto simp: unpickle_entity_run)
  from Cons.IH [OF more]
  have len: "length rs = length xs"
    and frame: "\<forall>a<length (objects s1). objects s' ! a = objects s1 ! a"
    and pos: "\<forall>j<length xs. \<exists>w. xs ! j = Inr w
           \<and> fst (rs ! j) = length (objects s1) + j
           \<and> objects s' ! (length (objects s1) + j) = fst w"
    by simp_all
  have c1: "length rc = length (x # xs)"
    by (simp add: rc len)
  have c2: "\<forall>a<length (objects s). objects s' ! a = objects s ! a"
    using frame by (simp add: s1 nth_append)
  have c3: "\<forall>j<length (x # xs). \<exists>w. (x # xs) ! j = Inr w
           \<and> fst (rc ! j) = length (objects s) + j
           \<and> objects s' ! (length (objects s) + j) = fst w"
  proof (intro allI impI)
    fix j assume j: "j < length (x # xs)"
    show "\<exists>w. (x # xs) ! j = Inr w \<and> fst (rc ! j) = length (objects s) + j
           \<and> objects s' ! (length (objects s) + j) = fst w"
    proof (cases j)
      case 0
      from frame have "objects s' ! length (objects s) = objects s1 ! length (objects s)"
        by (simp add: s1)
      then have "objects s' ! length (objects s) = fst v"
        by (simp add: s1)
      with 0 x r rc show ?thesis by simp
    next
      case (Suc j')
      with j have "j' < length xs" by simp
      with pos obtain w where "xs ! j' = Inr w" "fst (rs ! j') = length (objects s1) + j'"
        "objects s' ! (length (objects s1) + j') = fst w"
        by blast
      with Suc rc s1 show ?thesis by simp
    qed
  qed
  from c1 c2 c3 show ?case by (intro conjI)
qed

lemma worker_completed:
  "worker func pickle_entity s status item = Completed v \<Longrightarrow>
   \<exists>r t'. func item s = (Inr r, t') \<and> v = (objects t' ! fst r, snd r)"
  by (cases status; cases "func item s"; cases "fst (func item s)")
    (auto simp: worker_def pickle_entity_def)

lemma post_processing_batch:
  assumes groups: "\<forall>i<k. aligned ! i \<noteq> [] \<and> (\<forall>b\<in>set (aligned ! i). b < n)"
    and copies: "processed = [n..<n + k]"
    and pl: "consistent run k"
    and len: "n + k \<le> length (objects t)"
    and run: "process_list_run run
        (\<lambda>idx. classify_and_resolve_entities p idx q processed aligned verbose)
        pickle_entity unpickle_entity [0..<k] t = (Inr rc, t')"
  shows "length rc = k \<and> (\<forall>a<n. objects t' ! a = objects t ! a)
     \<and> (\<forall>j<k. processed_copy p (objects t) (aligned ! j) (objects t ! (n + j))
           (objects t' ! fst (rc ! j)))"
proof -
  let ?func = "\<lambda>idx. classify_and_resolve_entities p idx q processed aligned verbose"
  let ?goal = "length rc = k \<and> (\<forall>a<n. objects t' ! a = objects t ! a)
     \<and> (\<forall>j<k. processed_copy p (objects t) (aligned ! j) (objects t ! (n + j))
           (objects t' ! fst (rc ! j)))"
  have serial: ?goal
    if ser: "in_series (map ?func [0..<k]) t0 = (Inr rc, t')" and same: "objects t0 = objects t"
    for t0
  proof -
    have d: "distinct [0..<k]" and b: "\<forall>i\<in>set [0..<k]. i < k"
      and l: "n + k \<le> length (objects t0)"
      using len same by simp_all
    from post_processing_in_series [OF groups copies ser d b l]
    have c1: "length rc = length [0..<k]"
      and c3: "\<forall>a. a \<notin> (\<lambda>i. n + i) ` set [0..<k] \<longrightarrow> objects t' ! a = objects t0 ! a"
      and c4: "\<forall>j<length [0..<k]. fst (rc ! j) = n + [0..<k] ! j
              \<and> processed_copy p (objects t0) (aligned ! ([0..<k] ! j))
                   (objects t0 ! (n + [0..<k] ! j)) (objects t' ! (n + [0..<k] ! j))"
      by blast+
    have g1: "length rc = k" using c1 by simp
    have g2: "\<forall>a<n. objects t' ! a = objects t ! a"
    proof (intro allI impI)
      fix a assume "a < n"
      then have "a \<notin> (\<lambda>i. n + i) ` set [0..<k]" by auto
      with c3 same show "objects t' ! a = objects t ! a" by simp
    qed
    have g3: "\<forall>j<k. processed_copy p (objects t) (aligned ! j) (objects t ! (n + j))
           (objects t' ! fst (rc ! j))"
    proof (intro allI impI)
      fix j assume j: "j < k"
      with c4 have "fst (rc ! j) = n + j"
        and "processed_copy p (objects t0) (aligned ! j) (objects t0 ! (n + j))
            (objects t' ! (n + j))"
        by simp_all
      with same show "processed_copy p (objects t) (aligned ! j) (objects t ! (n + j))
           (objects t' ! fst (rc ! j))"
        by simp
    qed
    from g1 g2 g3 show ?thesis by (intro conjI)
  qed
  let ?restarted = "t\<lparr>pool := restart_subprocesses (pool t)\<rparr>"
  show ?thesis
  proof (cases "pool t")
    case None
    with run have "in_series (map ?func [0..<k]) t = (Inr rc, t')"
      by (simp add: process_list_run_def)
    then show ?thesis by (rule serial) simp
  next
    case (Some executor)
    show ?thesis
    proof (cases run)
      case SubmitRaised
      with run Some have "in_series (map ?func [0..<k]) ?restarted = (Inr rc, t')"
        by (simp add: process_list_run_def)
      then show ?thesis by (rule serial) simp
    next
      case (Waited statuses finished)
      let ?futures = "map (\<lambda>(status, item). worker ?func pickle_entity t status item)
                        (zip statuses [0..<k])"
      from pl Waited have ls: "length statuses = k"
        by (simp add: consistent_def)
      show ?thesis
      proof (cases "try_pool (Waited ?futures finished) [0..<k]")
        case None
        with run Some Waited have "in_series (map ?func [0..<k]) ?restarted = (Inr rc, t')"
          by (simp add: process_list_run_def)
        then show ?thesis by (rule serial) simp
      next
        case results: (Some results)
        let ?unp = "\<lambda>r. case r of Inr v \<Rightarrow> unpickle_entity v | Inl item \<Rightarrow> raise TypeError"
        from run Some Waited results have unpickled: "in_series (map ?unp results) t = (Inr rc, t')"
          by (simp add: process_list_run_def)
        from results have g: "gather ?futures finished (map Inl [0..<k]) = Some results"
          by (simp split: if_splits)
        from gather_positions [OF g] have lr: "length results = k"
          and pos: "\<forall>i<k. results ! i = map Inl [0..<k] ! i
              \<or> (\<exists>v. ?futures ! i = Completed v \<and> results ! i = Inr v)"
          by simp_all
        from unpickled_in_series [OF unpickled] lr
        have g1: "length rc = k"
          and g2': "\<forall>a<length (objects t). objects t' ! a = objects t ! a"
          and vals: "\<forall>j<k. \<exists>v. results ! j = Inr v
               \<and> fst (rc ! j) = length (objects t) + j
               \<and> objects t' ! (length (objects t) + j) = fst v"
          by simp_all
        from g2' len have g2: "\<forall>a<n. objects t' ! a = objects t ! a"
          by simp
        have g3: "\<forall>j<k. processed_copy p (objects t) (aligned ! j) (objects t ! (n + j))
             (objects t' ! fst (rc ! j))"
        proof (intro allI impI)
          fix j assume j: "j < k"
          with vals obtain v where v: "results ! j = Inr v"
            and at: "objects t' ! fst (rc ! j) = fst v"
            by auto
          from pos j v obtain w where "?futures ! j = Completed w" "results ! j = Inr w"
            by auto
          with v have fut: "?futures ! j = Completed v" by simp
          from j ls have "?futures ! j = worker ?func pickle_entity t (statuses ! j) j"
            by simp
          with fut have "worker ?func pickle_entity t (statuses ! j) j = Completed v"
            by simp
          from worker_completed [OF this] obtain r tw where step: "?func j t = (Inr r, tw)"
            and pickled: "v = (objects tw ! fst r, snd r)"
            by blast
          from j copies have pj: "processed ! j = n + j" by simp
          from groups j have ne: "aligned ! j \<noteq> []" and below: "\<forall>b\<in>set (aligned ! j). b < n"
            by simp_all
          from below have apart: "processed ! j \<notin> set (aligned ! j)"
            unfolding pj by auto
          from j len have valid: "processed ! j < length (objects t)"
            unfolding pj by simp
          from classify_and_resolve_entities_copy [OF step valid apart ne]
          have "fst r = n + j"
            and "processed_copy p (objects t) (aligned ! j) (objects t ! (n + j))
                (objects tw ! (n + j))"
            unfolding pj by simp_all
          with pickled at show "processed_copy p (objects t) (aligned ! j) (objects t ! (n + j))
             (objects t' ! fst (rc ! j))"
            by simp
        qed
        from g1 g2 g3 show ?thesis by (intro conjI)
      qed
    qed
  qed
qed

lemma process_entities_copies:
  assumes t: "tier p = IntentProcessor recognizer None nbest"
    and run: "process_entities p run queries (reference # others) aligned verbose s1
        = (Inr (processed, conf), s')"
    and refs: "\<forall>a\<in>set (refs_of reference). a < length (objects s1)"
    and groups: "\<forall>i<length (refs_of reference). aligned ! i \<noteq> []
        \<and> (\<forall>b\<in>set (aligned ! i). b < length (objects s1))"
    and pl: "consistent run (length (refs_of reference))"
  shows "length processed = length (refs_of reference)
     \<and> (\<forall>j<length (refs_of reference).
           processed_copy p (objects s1) (aligned ! j) (objects s1 ! (refs_of reference ! j))
             (objects s' ! (processed ! j)))"
proof -
  let ?refs = "refs_of reference"
  let ?k = "length ?refs"
  let ?n = "length (objects s1)"
  let ?copies = "[?n..<?n + ?k]"
  let ?t = "s1\<lparr>objects := objects s1 @ map (\<lambda>a. objects s1 ! a) ?refs\<rparr>"
  from run t obtain q qs where queries: "queries = q # qs"
    by (cases queries) (simp_all add: process_entities_def raise_def)
  let ?func = "\<lambda>idx. classify_and_resolve_entities p idx q ?copies aligned verbose"
  have alloc: "bind (allocate (map (\<lambda>a. objects s1 ! a) ?refs)) f s1 = f ?copies ?t" for f :: "addr list \<Rightarrow> (addr list \<times> confidence option list) run"
    by (simp add: bind_def allocate_def)
  from run t queries
  have 1: "bind (process_list_run run ?func pickle_entity unpickle_entity [0..<?k])
      (\<lambda>processed_entities_conf.
         return (if processed_entities_conf \<noteq> []
                 then (map fst processed_entities_conf, map snd processed_entities_conf)
                 else (?copies, []))) ?t = (Inr (processed, conf), s')"
    by (simp add: process_entities_def get_objects_bind alloc Let_def)
  from bind_Inr [OF 1] obtain rc t2 where
    batch: "process_list_run run ?func pickle_entity unpickle_entity [0..<?k] ?t = (Inr rc, t2)"
    and 2: "return (if rc \<noteq> [] then (map fst rc, map snd rc) else (?copies, [])) t2
        = (Inr (processed, conf), s')"
    by blast
  from 2 have t2: "t2 = s'"
    and processed: "processed = (if rc \<noteq> [] then map fst rc else ?copies)"
    by (simp_all add: return_def split: if_splits)
  have len: "?n + ?k \<le> length (objects ?t)"
    by simp
  from post_processing_batch [OF groups refl pl len batch] t2
  have lrc: "length rc = ?k"
    and copy: "\<forall>j<?k. processed_copy p (objects ?t) (aligned ! j) (objects ?t ! (?n + j))
           (objects s' ! fst (rc ! j))"
    by simp_all
  have c1: "length processed = ?k"
    using lrc by (simp add: processed)
  have c2: "\<forall>j<?k. processed_copy p (objects s1) (aligned ! j) (objects s1 ! (?refs ! j))
             (objects s' ! (processed ! j))"
  proof (intro allI impI)
    fix j assume j: "j < ?k"
    with lrc have "rc \<noteq> []" by auto
    with j lrc have pj: "processed ! j = fst (rc ! j)"
      by (simp add: processed)
    from j have start: "objects ?t ! (?n + j) = objects s1 ! (?refs ! j)"
      by (simp add: nth_append)
    from groups j have "\<forall>b\<in>set (aligned ! j). b < ?n" by simp
    then have same: "\<forall>b\<in>set (aligned ! j). objects ?t ! b = objects s1 ! b"
      by (simp add: nth_append)
    from copy j have "processed_copy p (objects ?t) (aligned ! j) (objects ?t ! (?n + j))
           (objects s' ! fst (rc ! j))"
      by simp
    then show "processed_copy p (objects s1) (aligned ! j) (objects s1 ! (?refs ! j))
             (objects s' ! (processed ! j))"
      unfolding start pj processed_copy_cong [OF same] .
  qed
  from c1 c2 show ?thesis by (intro conjI)
qed

text \<open>
  Claim C9. Entity post-processing works on copies. Let \<^verbatim>\<open>process_query\<close> of an intent
  processor return a processed query, with a pool that has one future per query of the
  recognition batch. Then the recognition step (\<^verbatim>\<open>_get_pred_entities\<close>) has appended the
  recognized entities to the store as the recognizer returned them, the transcripts it
  returns refer to these objects only, and when \<^verbatim>\<open>process_query\<close> completes

  \<^item> every object that existed after recognition, the recognized entities among them, is
    as recognition left it: post-processing has written to none of them;
  \<^item> every entity of the returned \<^verbatim>\<open>entities\<close> list is another object, created after
    recognition;
  \<^item> \<^verbatim>\<open>nbest_transcripts_entities\<close> holds the recognized transcripts and every entity of
    \<^verbatim>\<open>nbest_aligned_entities\<close> is one of their entities, so these fields refer to
    originals, never to a copy;
  \<^item> so if the recognizer returns entities without role and value, the recognized
    objects are without role and value at the end;
  \<^item> when the intent has no parser (the parser is external and returns the entities list
    itself) and the pool has one future per entity of the reference transcript, the
    returned entities are, in order, processed copies of the entities of the reference
    transcript: type, text and span of the original, a role if its type has roles, and
    the value its resolver returns for the originals of its aligned group.
\<close>

theorem post_processing_on_copies:
  assumes run: "intent_process_query p runs query d verbose s = (Inr pq, s')"
    and pl: "consistent (recognition_run runs) (length (queries_of query))"
  shows "\<exists>conf entities s1.
       get_pred_entities p (recognition_run runs) (queries_of query) d verbose s
         = (Inr (conf, entities), s1)
     \<and> (\<exists>vs. objects s1 = objects s @ vs \<and> set vs \<subseteq> recognizable p (queries_of query) d)
     \<and> all_refs entities \<subseteq> {length (objects s)..<length (objects s1)}
     \<and> length (objects s1) \<le> length (objects s')
     \<and> (\<forall>a<length (objects s1). objects s' ! a = objects s1 ! a)
     \<and> (\<forall>a\<in>set (pq_entities pq). length (objects s1) \<le> a)
     \<and> (\<forall>ts. nbest_transcripts_entities pq = Some ts \<longrightarrow> ts = entities)
     \<and> (\<forall>gs. nbest_aligned_entities pq = Some gs
            \<longrightarrow> (\<forall>g\<in>set gs. set g \<subseteq> all_refs entities))
     \<and> ((\<forall>e\<in>recognizable p (queries_of query) d.
             role (entity e) = None \<and> resolved (entity e) = None)
          \<longrightarrow> (\<forall>a. length (objects s) \<le> a \<and> a < length (objects s1)
                \<longrightarrow> role (entity (objects s' ! a)) = None
                  \<and> resolved (entity (objects s' ! a)) = None))
     \<and> (\<forall>recognizer nbest.
            tier p = IntentProcessor recognizer None nbest
            \<and> consistent (entities_run runs) (length (refs_of (hd entities)))
          \<longrightarrow> (\<exists>aligned. align_recognized nbest entities s1 = (Inr aligned, s1)
                \<and> length (pq_entities pq) = length (refs_of (hd entities))
                \<and> (\<forall>j<length (pq_entities pq).
                      processed_copy p (objects s1) (aligned ! j)
                        (objects s1 ! (refs_of (hd entities) ! j))
                        (objects s' ! (pq_entities pq ! j)))))"
proof -
  let ?queries = "queries_of query"
  from intent_process_query_steps [OF run]
  obtain recognizer parser nbest conf entities s1 aligned processed role_conf where
    t: "tier p = IntentProcessor recognizer parser nbest"
    and g: "get_pred_entities p (recognition_run runs) ?queries d verbose s
        = (Inr (conf, entities), s1)"
    and a: "align_recognized nbest entities s1 = (Inr aligned, s1)"
    and pe: "process_entities p (entities_run runs) ?queries entities aligned verbose s1
        = (Inr (processed, role_conf), s')"
    and f1: "pq_entities pq = processed"
    and f2: "\<forall>ts. nbest_transcripts_entities pq = Some ts \<longrightarrow> ts = entities"
    and f3: "\<forall>gs. nbest_aligned_entities pq = Some gs \<longrightarrow> gs = aligned"
    by (elim exE conjE) (rule that, assumption+)
  from get_pred_entities_refs [OF g] obtain found where
    rec: "recognize_entities p (recognition_run runs) ?queries d verbose s = (Inr found, s1)"
    and sub: "all_refs entities \<subseteq> all_refs found"
    by blast
  from createsD [OF creates_recognize_entities [OF t pl] rec]
  obtain vs where vs: "objects s1 = objects s @ vs"
    and V: "set vs \<subseteq> recognizable p ?queries d"
    and refs: "all_refs found \<subseteq> {length (objects s)..<length (objects s1)}"
    by blast
  let ?n = "length (objects s1)"
  from keepsD [OF keeps_process_entities _ pe, of ?n]
  have c4: "?n \<le> length (objects s')"
    and c5: "\<forall>a<?n. objects s' ! a = objects s1 ! a"
    and copies: "\<forall>a\<in>set processed. ?n \<le> a"
    by simp_all
  have c2: "\<exists>vs. objects s1 = objects s @ vs \<and> set vs \<subseteq> recognizable p ?queries d"
    using vs V by blast
  have c3: "all_refs entities \<subseteq> {length (objects s)..<?n}"
    using sub refs by blast
  have c6: "\<forall>a\<in>set (pq_entities pq). ?n \<le> a"
    using copies f1 by simp
  have c8: "\<forall>gs. nbest_aligned_entities pq = Some gs
      \<longrightarrow> (\<forall>g\<in>set gs. set g \<subseteq> all_refs entities)"
  proof (intro allI impI ballI)
    fix gs g
    assume "nbest_aligned_entities pq = Some gs" "g \<in> set gs"
    with f3 have "g \<in> set aligned" by simp
    with align_recognized_refs [OF a] show "set g \<subseteq> all_refs entities" by simp
  qed
  have c9: "(\<forall>e\<in>recognizable p ?queries d. role (entity e) = None \<and> resolved (entity e) = None)
      \<longrightarrow> (\<forall>a. length (objects s) \<le> a \<and> a < ?n
            \<longrightarrow> role (entity (objects s' ! a)) = None
              \<and> resolved (entity (objects s' ! a)) = None)"
  proof (intro allI impI)
    fix a
    assume unset: "\<forall>e\<in>recognizable p ?queries d.
        role (entity e) = None \<and> resolved (entity e) = None"
      and b: "length (objects s) \<le> a \<and> a < ?n"
    with c5 have "objects s' ! a = vs ! (a - length (objects s))"
      by (simp add: vs nth_append)
    moreover from b have "a - length (objects s) < length vs"
      by (simp add: vs) arith
    ultimately have "objects s' ! a \<in> recognizable p ?queries d"
      using V by (metis nth_mem subsetD)
    with unset show "role (entity (objects s' ! a)) = None
        \<and> resolved (entity (objects s' ! a)) = None"
      by blast
  qed
  have c10: "\<forall>recognizer nbest.
            tier p = IntentProcessor recognizer None nbest
            \<and> consistent (entities_run runs) (length (refs_of (hd entities)))
          \<longrightarrow> (\<exists>aligned. align_recognized nbest entities s1 = (Inr aligned, s1)
                \<and> length (pq_entities pq) = length (refs_of (hd entities))
                \<and> (\<forall>j<length (pq_entities pq).
                      processed_copy p (objects s1) (aligned ! j)
                        (objects s1 ! (refs_of (hd entities) ! j))
                        (objects s' ! (pq_entities pq ! j))))"
  proof (intro allI impI)
    fix recognizer' nbest'
    assume h: "tier p = IntentProcessor recognizer' None nbest'
        \<and> consistent (entities_run runs) (length (refs_of (hd entities)))"
    with t have t': "tier p = IntentProcessor recognizer None nbest" and nb: "nbest' = nbest"
      by simp_all
    from align_recognized_grouped [OF a]
    obtain reference rest where ents: "entities = reference # rest"
      and gr: "grouped (\<lambda>a. objects s1 ! a) (\<Union>(set ` set (map refs_of rest)))
          (refs_of reference) aligned"
      by blast
    let ?refs = "refs_of reference"
    have in_refs: "set ?refs \<subseteq> all_refs entities"
      by (auto simp: ents all_refs_def)
    with c3 have r: "\<forall>a\<in>set ?refs. a < ?n"
      by auto
    have groups: "\<forall>i<length ?refs. aligned ! i \<noteq> [] \<and> (\<forall>b\<in>set (aligned ! i). b < ?n)"
    proof (intro allI impI)
      fix i assume i: "i < length ?refs"
      with gr have ne: "aligned ! i \<noteq> []" and "i < length aligned"
        by (simp_all add: grouped_def)
      then have "aligned ! i \<in> set aligned" by simp
      with align_recognized_refs [OF a] have "set (aligned ! i) \<subseteq> all_refs entities"
        by simp
      with c3 have "\<forall>b\<in>set (aligned ! i). b < ?n" by auto
      with ne show "aligned ! i \<noteq> [] \<and> (\<forall>b\<in>set (aligned ! i). b < ?n)" by simp
    qed
    from h have pool: "consistent (entities_run runs) (length ?refs)"
      by (simp add: ents)
    from process_entities_copies [OF t' pe [unfolded ents] r groups pool]
    have "length processed = length ?refs"
      and "\<forall>j<length ?refs. processed_copy p (objects s1) (aligned ! j)
          (objects s1 ! (?refs ! j)) (objects s' ! (processed ! j))"
      by simp_all
    with a f1 nb ents
    show "\<exists>aligned. align_recognized nbest' entities s1 = (Inr aligned, s1)
        \<and> length (pq_entities pq) = length (refs_of (hd entities))
        \<and> (\<forall>j<length (pq_entities pq).
              processed_copy p (objects s1) (aligned ! j)
                (objects s1 ! (refs_of (hd entities) ! j))
                (objects s' ! (pq_entities pq ! j)))"
      by - (rule exI [of _ aligned], simp)
  qed
  from g c2 c3 c4 c5 c6 f2 c8 c9 c10 show ?thesis
    by - (rule exI [of _ conf], rule exI [of _ entities], rule exI [of _ s1],
        intro conjI, assumption+)
qed

lemma travel_recognition:
  "get_pred_entities travel SubmitRaised [''Paris'', ''Pares''] () False empty_state =
     (Inr ([], [Plain [0], Plain [1]]),
      \<lparr>objects = [recognized ''city'' ''Paris'' 0 5, recognized ''city'' ''Pares'' 0 5],
       pool = None,
       calls = [(EntityRecognizer, Predict), (EntityRecognizer, Predict)]\<rparr>)"
  by (simp add: get_pred_entities_def recognize_entities_def travel_def process_list_run_def
      empty_state_def recognize_query_def consult_bind predict_entities_def heard_city_def
      new_objects_def bind_def allocate_def return_def consult_def)

lemma travel_alignment:
  "align_recognized True [Plain [0], Plain [1]]
     \<lparr>objects = [recognized ''city'' ''Paris'' 0 5, recognized ''city'' ''Pares'' 0 5],
      pool = None,
      calls = [(EntityRecognizer, Predict), (EntityRecognizer, Predict)]\<rparr> =
     (Inr [[0, 1]],
      \<lparr>objects = [recognized ''city'' ''Paris'' 0 5, recognized ''city'' ''Pares'' 0 5],
       pool = None,
       calls = [(EntityRecognizer, Predict), (EntityRecognizer, Predict)]\<rparr>)"
  by (simp add: align_recognized_def get_objects_bind align_entities_def align_transcript_def
      aligns_def recognized_def return_def raise_def Let_def)

lemma travel_post_processing:
  "process_entities travel SubmitRaised [''Paris'', ''Pares''] [Plain [0], Plain [1]] [[0, 1]]
     False
     \<lparr>objects = [recognized ''city'' ''Paris'' 0 5, recognized ''city'' ''Pares'' 0 5],
      pool = None,
      calls = [(EntityRecognizer, Predict), (EntityRecognizer, Predict)]\<rparr> =
     (Inr ([2], [None]), travel_store)"
  by (simp add: process_entities_def travel_def process_list_run_def travel_store_def
      classify_and_resolve_entities_def process_entity_def resolve_entity_def check_ready_def
      arrival_def first_text_def recognized_def
      bind_def allocate_def return_def consult_def get_objects_def modify_def Let_def)

lemma travel_run:
  "intent_process_query travel in_process (Many [''Paris'', ''Pares'']) () False empty_state =
     (Inr travel_result, travel_store)"
proof -
  have "intent_process_query travel in_process (Many [''Paris'', ''Pares'']) () False empty_state =
      bind (get_pred_entities travel SubmitRaised [''Paris'', ''Pares''] () False)
        (\<lambda>(entity_confidence, entities).
          bind (align_recognized True entities) (\<lambda>aligned_entities.
          bind (process_entities travel SubmitRaised [''Paris'', ''Pares''] entities
                  aligned_entities False)
            (\<lambda>(processed_entities, role_confidence).
              return
                \<lparr>pq_query = ''Paris'', pq_entities = processed_entities, pq_domain = None,
                 pq_intent = None, pq_confidence = no_scores,
                 nbest_transcripts_queries = Some [''Paris'', ''Pares''],
                 nbest_transcripts_entities = Some entities,
                 nbest_aligned_entities = Some aligned_entities\<rparr>))) empty_state"
  proof -
    have "ready travel" "tier travel = IntentProcessor heard_city None True"
      by (simp_all add: travel_def)
    then show ?thesis
      by (simp add: intent_process_query_def check_ready_ready in_process_def Let_def)
  qed
  also have "\<dots> = (Inr travel_result, travel_store)"
    by (simp add: bind_def travel_recognition travel_alignment travel_post_processing
        return_def travel_result_def del: One_nat_def)
  finally show ?thesis .
qed

theorem post_processing_on_copies_witness:
  "intent_process_query travel in_process (Many [''Paris'', ''Pares'']) () False empty_state =
     (Inr travel_result, travel_store)
   \<and> consistent (recognition_run in_process) (length (queries_of (Many [''Paris'', ''Pares''])))
   \<and> (\<exists>conf entities s1.
       get_pred_entities travel (recognition_run in_process)
         (queries_of (Many [''Paris'', ''Pares''])) () False empty_state
         = (Inr (conf, entities), s1)
     \<and> (\<exists>vs. objects s1 = objects empty_state @ vs
            \<and> set vs \<subseteq> recognizable travel (queries_of (Many [''Paris'', ''Pares''])) ())
     \<and> all_refs entities \<subseteq> {length (objects empty_state)..<length (objects s1)}
     \<and> length (objects s1) \<le> length (objects travel_store)
     \<and> (\<forall>a<length (objects s1). objects travel_store ! a = objects s1 ! a)
     \<and> (\<forall>a\<in>set (pq_entities travel_result). length (objects s1) \<le> a)
     \<and> (\<forall>ts. nbest_transcripts_entities travel_result = Some ts \<longrightarrow> ts = entities)
     \<and> (\<forall>gs. nbest_aligned_entities travel_result = Some gs
            \<longrightarrow> (\<forall>g\<in>set gs. set g \<subseteq> all_refs entities))
     \<and> ((\<forall>e\<in>recognizable travel (queries_of (Many [''Paris'', ''Pares''])) ().
             role (entity e) = None \<and> resolved (entity e) = None)
          \<longrightarrow> (\<forall>a. length (objects empty_state) \<le> a \<and> a < length (objects s1)
                \<longrightarrow> role (entity (objects travel_store ! a)) = None
                  \<and> resolved (entity (objects travel_store ! a)) = None))
     \<and> (\<forall>recognizer nbest.
            tier travel = IntentProcessor recognizer None nbest
            \<and> consistent (entities_run in_process) (length (refs_of (hd entities)))
          \<longrightarrow> (\<exists>aligned. align_recognized nbest entities s1 = (Inr aligned, s1)
                \<and> length (pq_entities travel_result) = length (refs_of (hd entities))
                \<and> (\<forall>j<length (pq_entities travel_result).
                      processed_copy travel (objects s1) (aligned ! j)
                        (objects s1 ! (refs_of (hd entities) ! j))
                        (objects travel_store ! (pq_entities travel_result ! j))))))
   \<and> map (\<lambda>a. role (entity (objects travel_store ! a))) [0, 1, 2] = [None, None, Some ''to'']
   \<and> map (\<lambda>a. resolved (entity (objects travel_store ! a))) [0, 1, 2] =
       [None, None, Some ''Paris'']
   \<and> processed_copy travel
        [recognized ''city'' ''Paris'' 0 5, recognized ''city'' ''Pares'' 0 5] [0, 1]
        (recognized ''city'' ''Paris'' 0 5) (objects travel_store ! 2)"
proof -
  have c: "consistent (recognition_run in_process)
      (length (queries_of (Many [''Paris'', ''Pares''])))"
    by (simp add: consistent_def in_process_def)
  have r: "map (\<lambda>a. role (entity (objects travel_store ! a))) [0, 1, 2] = [None, None, Some ''to'']"
    and v: "map (\<lambda>a. resolved (entity (objects travel_store ! a))) [0, 1, 2] =
       [None, None, Some ''Paris'']"
    by (simp_all add: travel_store_def recognized_def)
  have pc: "processed_copy travel
        [recognized ''city'' ''Paris'' 0 5, recognized ''city'' ''Pares'' 0 5] [0, 1]
        (recognized ''city'' ''Paris'' 0 5) (objects travel_store ! 2)"
    by (simp add: processed_copy_def travel_store_def recognized_def travel_def arrival_def
        first_text_def)
  from post_processing_on_copies [OF travel_run c] travel_run c r v pc show ?thesis
    by (intro conjI)
qed

end
